theory Spec2Isabelle
  imports Complex_Main "HOL-Library.Multiset"
begin

section \<open>Individuals, populations and the values a Python name can hold\<close>

text \<open>
  An individual carries the attributes that \<^verbatim>\<open>algorithm.py\<close> reads by name:
  \<^verbatim>\<open>"X"\<close>, \<^verbatim>\<open>"F"\<close>, \<^verbatim>\<open>"G"\<close>, \<^verbatim>\<open>"CV"\<close> and \<^verbatim>\<open>"feasible"\<close>. Objective and
  constraint values are real numbers (the floating-point special values are outside
  the model). A population is the ordered collection of its individuals.
\<close>

record individual =
  X :: "real list"
  F :: "real list"
  G :: "real list"
  CV :: real
  feasible :: bool

type_synonym population = "individual list"

text \<open>
  What \<^verbatim>\<open>ret\<close> and \<^verbatim>\<open>opt\<close> can be bound to: \<^verbatim>\<open>None\<close>, one
  \<^verbatim>\<open>Individual\<close>, or a \<^verbatim>\<open>Population\<close>.
\<close>

datatype pyval = PNone | Ind individual | Pop population

text \<open>
  The exceptions of the model. \<open>ConfigurationError\<close> is the exception of
  \<^verbatim>\<open>_solve\<close> (line 249); \<open>HookError\<close> is whatever a hook of a concrete algorithm
  raises, with its message; the others are the Python and numpy exceptions of indexing, \<^verbatim>\<open>len\<close>,
  \<^verbatim>\<open>+=\<close>, attribute access and the recursion limit.
\<close>

datatype error =
  ConfigurationError | IndexError | ValueError | TypeError | AttributeError | RecursionError
  | HookError string

subsection \<open>Column-wise attribute access and numpy indexing\<close>

text \<open>
  Modelled from the spec: the \<^verbatim>\<open>Population\<close> class (\<^verbatim>\<open>pymoo.model.population\<close>)
  is defined outside \<^verbatim>\<open>algorithm.py\<close>. Its \<^verbatim>\<open>get\<close> gives "all values of an attribute
  as a matrix": one row per individual, in the population's order. \<^verbatim>\<open>CV\<close> and
  \<^verbatim>\<open>feasible\<close> are one-column matrices (line 305 selects column 0 of
  \<^verbatim>\<open>feasible\<close>).
\<close>

definition get_feasible :: "population \<Rightarrow> bool list list" where
  "get_feasible pop = map (\<lambda>a. [feasible a]) pop"

definition get_F :: "population \<Rightarrow> real list list" where
  "get_F pop = map F pop"

definition get_X :: "population \<Rightarrow> real list list" where
  "get_X pop = map X pop"

definition get_G :: "population \<Rightarrow> real list list" where
  "get_G pop = map G pop"

definition get_CV :: "population \<Rightarrow> real list list" where
  "get_CV pop = map (\<lambda>a. [CV a]) pop"

text \<open>
  \<^verbatim>\<open>M[:, 0]\<close>: column 0 of a matrix. The array built from no rows at all is
  one-dimensional (shape \<^verbatim>\<open>(0,)\<close>), and a matrix whose rows are empty has no
  column 0: both raise \<^verbatim>\<open>IndexError\<close>.
\<close>

definition column0 :: "'a list list \<Rightarrow> error + 'a list" where
  "column0 M =
     (if M = [] then Inl IndexError
      else if list_ex (\<lambda>r. r = []) M then Inl IndexError
      else Inr (map hd M))"

text \<open>\<^verbatim>\<open>pop[mask]\<close> with a boolean mask: the individuals whose mask entry is true.\<close>

definition mask_select :: "'a list \<Rightarrow> bool list \<Rightarrow> error + 'a list" where
  "mask_select pop msk =
     (if length msk \<noteq> length pop then Inl IndexError
      else Inr (map fst (filter snd (zip pop msk))))"

text \<open>\<^verbatim>\<open>F.shape[1]\<close>: the number of columns; an array of no rows has no second axis.\<close>

definition shape1 :: "'a list list \<Rightarrow> error + nat" where
  "shape1 M = (case M of [] \<Rightarrow> Inl IndexError | r # _ \<Rightarrow> Inr (length r))"

text \<open>
  \<^verbatim>\<open>np.argmin\<close> of the flattened array: the index of the first occurrence of the
  minimum; \<^verbatim>\<open>ValueError\<close> on an empty sequence.
\<close>

fun argmin_list :: "real list \<Rightarrow> nat" where
  "argmin_list [] = 0"
| "argmin_list [x] = 0"
| "argmin_list (x # y # ys) =
     (let i = argmin_list (y # ys) in if x \<le> (y # ys) ! i then 0 else Suc i)"

definition argmin :: "real list list \<Rightarrow> error + nat" where
  "argmin M = (if concat M = [] then Inl ValueError else Inr (argmin_list (concat M)))"

text \<open>\<^verbatim>\<open>pop[i]\<close> with one integer index: one \<^verbatim>\<open>Individual\<close>.\<close>

definition index_one :: "population \<Rightarrow> nat \<Rightarrow> error + pyval" where
  "index_one pop i = (if i < length pop then Inr (Ind (pop ! i)) else Inl IndexError)"

text \<open>\<^verbatim>\<open>pop[I]\<close> with an array of indices: the \<^verbatim>\<open>Population\<close> of those rows, in the order of \<^verbatim>\<open>I\<close>.\<close>

definition index_many :: "population \<Rightarrow> nat list \<Rightarrow> error + pyval" where
  "index_many pop I =
     (if list_all (\<lambda>i. i < length pop) I then Inr (Pop (map (\<lambda>i. pop ! i) I))
      else Inl IndexError)"

subsection \<open>Pareto dominance and the non-dominated sorting service\<close>

text \<open>
  Row \<open>a\<close> dominates row \<open>b\<close>: at least as good in every objective and strictly
  better in at least one (minimisation).
\<close>

definition dominates :: "real list \<Rightarrow> real list \<Rightarrow> bool" where
  "dominates a b \<longleftrightarrow>
     list_all (\<lambda>(x, y). x \<le> y) (zip a b) \<and> list_ex (\<lambda>(x, y). x < y) (zip a b)"

text \<open>
  Modelled from the spec: \<^verbatim>\<open>NonDominatedSorting\<close> (\<^verbatim>\<open>pymoo.util.nds\<close>) is defined
  outside \<^verbatim>\<open>algorithm.py\<close>. The service maps an objective matrix to the indices of its
  non-dominated rows; this instance lists them in increasing order.
\<close>

definition non_dominated_front :: "real list list \<Rightarrow> nat list" where
  "non_dominated_front M =
     filter (\<lambda>i. \<not> list_ex (\<lambda>r. dominates r (M ! i)) M) [0..<length M]"

text \<open>
  The contract of the service, for any implementation \<open>nds\<close> of it: on every matrix
  it answers with the indices of exactly the non-dominated rows, each once.
\<close>

definition nds_contract :: "(real list list \<Rightarrow> nat list) \<Rightarrow> bool" where
  "nds_contract nds \<longleftrightarrow>
     (\<forall>M. distinct (nds M) \<and>
          set (nds M) = {i. i < length M \<and> \<not> (\<exists>j<length M. dominates (M ! j) (M ! i))})"

section \<open>The optimum filter\<close>

text \<open>
  \<^verbatim>\<open>filter_optimum(pop, least_infeasible=False)\<close>, lines 303 to 332. The sorting
  service \<open>nds\<close> is \<^verbatim>\<open>NonDominatedSorting().do(F, only_non_dominated_front=True)\<close>.
  The last step wraps a single \<^verbatim>\<open>Individual\<close> into a one-element population.
\<close>

definition filter_optimum ::
  "(real list list \<Rightarrow> nat list) \<Rightarrow> population \<Rightarrow> bool \<Rightarrow> error + pyval" where
  "filter_optimum nds pop least_infeasible =
     (case column0 (get_feasible pop) of
        Inl e \<Rightarrow> Inl e
      | Inr msk \<Rightarrow>
         (case mask_select pop msk of
            Inl e \<Rightarrow> Inl e
          | Inr ret \<Rightarrow>
             (case (if length ret > 0 then
                      (let Fm = get_F ret in
                       case shape1 Fm of
                         Inl e \<Rightarrow> Inl e
                       | Inr m \<Rightarrow>
                          if m > 1 then index_many ret (nds Fm)
                          else (case argmin Fm of
                                  Inl e \<Rightarrow> Inl e
                                | Inr i \<Rightarrow> index_one ret i))
                    else if least_infeasible then
                      (case argmin (get_CV pop) of
                         Inl e \<Rightarrow> Inl e
                       | Inr i \<Rightarrow> index_one pop i)
                    else Inr PNone) of
                Inl e \<Rightarrow> Inl e
              | Inr (Ind a) \<Rightarrow> Inr (Pop [a])
              | Inr v \<Rightarrow> Inr v)))"

text \<open>
  The reference for "the non-dominated subset" of a collection, by brute force: the
  individuals that no individual of the collection dominates, in the collection's order.
\<close>

definition non_dominated_subset :: "population \<Rightarrow> population" where
  "non_dominated_subset P = filter (\<lambda>a. \<not> list_ex (\<lambda>b. dominates (F b) (F a)) P) P"

text \<open>An evaluated individual for examples: objectives, constraint violation, feasibility.\<close>

definition sample :: "real list \<Rightarrow> real \<Rightarrow> bool \<Rightarrow> individual" where
  "sample f cv fe = \<lparr>X = f, F = f, G = [cv], CV = cv, feasible = fe\<rparr>"

section \<open>The algorithm object\<close>

text \<open>
  Modelled from the spec: the \<^verbatim>\<open>Problem\<close> class is defined outside
  \<^verbatim>\<open>algorithm.py\<close>; \<^verbatim>\<open>solve\<close> reads only its number of objectives.
\<close>

record problem =
  n_obj :: int

text \<open>
  A callback is either an object of class \<^verbatim>\<open>Callback\<close> (invoked through
  \<^verbatim>\<open>notify\<close>) or a plain function (called directly); \<open>'c\<close> is what it has
  recorded so far.
\<close>

datatype 'c callback = CallbackObject 'c | PlainFunction 'c

text \<open>
  The attributes \<^verbatim>\<open>__init__\<close> declares (lines 83 to 118), but \<^verbatim>\<open>history\<close>, which
  holds algorithm objects and is a component of the datatype below. \<open>'t\<close> is the type
  of termination criteria, \<open>'x\<close> the type of the collaborators this class only
  stores (display, evaluator, Pareto front). An attribute that starts as
  \<^verbatim>\<open>None\<close> is an option. The attribute \<^verbatim>\<open>termination\<close> is
  \<open>termination_criterion\<close> here. The dictionary \<^verbatim>\<open>data\<close> is never read or written after
  \<^verbatim>\<open>__init__\<close> and is left out.
\<close>

record ('t, 'c, 'x) attributes =
  callback :: "'c callback option"
  display :: "'x option"
  return_least_infeasible :: bool
  problem :: "problem option"
  termination_criterion :: "'t option"
  default_termination :: "'t option"
  seed :: "int option"
  pf :: "'x option"
  evaluator :: "'x option"
  n_gen :: "int option"
  save_history :: "bool option"
  pop :: "population option"
  opt :: pyval
  verbose :: "bool option"

datatype ('t, 'c, 'x) algorithm =
  Algorithm (attrs: "('t, 'c, 'x) attributes") (history: "('t, 'c, 'x) algorithm list option")

definition update_attrs ::
  "(('t, 'c, 'x) attributes \<Rightarrow> ('t, 'c, 'x) attributes) \<Rightarrow> ('t, 'c, 'x) algorithm
     \<Rightarrow> ('t, 'c, 'x) algorithm" where
  "update_attrs f self = Algorithm (f (attrs self)) (history self)"

definition set_history ::
  "('t, 'c, 'x) algorithm list option \<Rightarrow> ('t, 'c, 'x) algorithm \<Rightarrow> ('t, 'c, 'x) algorithm" where
  "set_history h self = Algorithm (attrs self) h"

text \<open>\<^verbatim>\<open>__init__\<close>, lines 63 to 118.\<close>

definition init ::
  "'c callback option \<Rightarrow> 'x option \<Rightarrow> 't option \<Rightarrow> bool \<Rightarrow> ('t, 'c, 'x) algorithm" where
  "init callback_arg display_arg termination_arg return_least_infeasible_arg =
     Algorithm
       \<lparr>callback = callback_arg,
        display = display_arg,
        return_least_infeasible = return_least_infeasible_arg,
        problem = None,
        termination_criterion = termination_arg,
        default_termination = None,
        seed = None,
        pf = None,
        evaluator = None,
        n_gen = None,
        save_history = None,
        pop = None,
        opt = PNone,
        verbose = None\<rparr>
       None"

text \<open>
  Modelled from the spec: the concrete algorithms, the termination criteria and the
  callbacks are defined outside \<^verbatim>\<open>algorithm.py\<close>, which only calls them. The two
  abstract hooks \<^verbatim>\<open>_initialize\<close> and \<^verbatim>\<open>_next\<close> "produce and evaluate" the first
  and the next population from the current state of the algorithm: they answer with
  the new value of \<^verbatim>\<open>pop\<close>, or raise. The termination criterion is a predicate of the
  current state. A callback sees the algorithm and records what it wants in itself, or
  raises: \<open>notify\<close> is the method of a \<^verbatim>\<open>Callback\<close> object, \<open>call\<close> the call of a
  plain function. \<open>non_dominated_sorting\<close> is the sorting service.
\<close>

record ('t, 'c, 'x) hooks =
  non_dominated_sorting :: "real list list \<Rightarrow> nat list"
  protected_initialize :: "('t, 'c, 'x) algorithm \<Rightarrow> string + population option"
  protected_next :: "('t, 'c, 'x) algorithm \<Rightarrow> string + population option"
  do_continue :: "'t \<Rightarrow> ('t, 'c, 'x) algorithm \<Rightarrow> bool"
  notify :: "'c \<Rightarrow> ('t, 'c, 'x) algorithm \<Rightarrow> string + 'c"
  call :: "'c \<Rightarrow> ('t, 'c, 'x) algorithm \<Rightarrow> string + 'c"

text \<open>
  \<^verbatim>\<open>initialize\<close>, lines 124 to 167. \<open>randint\<close> is the draw of
  \<^verbatim>\<open>np.random.randint(0, 10000000)\<close>, used when no seed is given; seeding the global
  generator has no effect on the attributes. \<open>new_evaluator\<close> is \<^verbatim>\<open>Evaluator()\<close>.
\<close>

definition initialize ::
  "('t, 'c, 'x) algorithm \<Rightarrow> problem \<Rightarrow> 't option \<Rightarrow> int option \<Rightarrow> int \<Rightarrow> 'x option
     \<Rightarrow> 'x option \<Rightarrow> 'x \<Rightarrow> bool \<Rightarrow> bool \<Rightarrow> ('t, 'c, 'x) algorithm" where
  "initialize self problem_arg termination_arg seed_arg randint pf_arg evaluator_arg
       new_evaluator verbose_arg save_history_arg =
     (let s = attrs self;
          s = s\<lparr>verbose := Some verbose_arg\<rparr>;
          s = s\<lparr>problem := Some problem_arg\<rparr>;
          s = (if termination_criterion s = None then s\<lparr>termination_criterion := termination_arg\<rparr> else s);
          s = (if termination_criterion s = None then s\<lparr>termination_criterion := default_termination s\<rparr> else s);
          s = s\<lparr>seed := seed_arg\<rparr>;
          s = (if seed s = None then s\<lparr>seed := Some randint\<rparr> else s);
          s = s\<lparr>pf := pf_arg\<rparr>;
          s = s\<lparr>evaluator := Some (case evaluator_arg of None \<Rightarrow> new_evaluator | Some ev \<Rightarrow> ev)\<rparr>;
          s = s\<lparr>save_history := Some save_history_arg\<rparr>;
          s = s\<lparr>n_gen := None, pop := None, opt := PNone\<rparr>
      in Algorithm s (Some []))"

text \<open>\<^verbatim>\<open>_set_optimum\<close>, lines 288 to 289. \<^verbatim>\<open>None.get\<close> raises \<^verbatim>\<open>AttributeError\<close>.\<close>

definition set_optimum ::
  "('t, 'c, 'x) hooks \<Rightarrow> ('t, 'c, 'x) algorithm \<Rightarrow> error + ('t, 'c, 'x) algorithm" where
  "set_optimum H self =
     (case pop (attrs self) of
        None \<Rightarrow> Inl AttributeError
      | Some p \<Rightarrow>
         (case filter_optimum (non_dominated_sorting H) p True of
            Inl e \<Rightarrow> Inl e
          | Inr v \<Rightarrow> Inr (update_attrs (\<lambda>s. s\<lparr>opt := v\<rparr>) self)))"

text \<open>
  The call of the callback in \<^verbatim>\<open>_each_iteration\<close>, lines 272 to 276: a
  \<^verbatim>\<open>Callback\<close> object is notified, a plain function is called, both with the
  algorithm.
\<close>

definition call_callback ::
  "('t, 'c, 'x) hooks \<Rightarrow> ('t, 'c, 'x) algorithm \<Rightarrow> error + ('t, 'c, 'x) algorithm" where
  "call_callback H self =
     (case callback (attrs self) of
        None \<Rightarrow> Inr self
      | Some (CallbackObject c) \<Rightarrow>
         (case notify H c self of
            Inl msg \<Rightarrow> Inl (HookError msg)
          | Inr c' \<Rightarrow> Inr (update_attrs (\<lambda>s. s\<lparr>callback := Some (CallbackObject c')\<rparr>) self))
      | Some (PlainFunction c) \<Rightarrow>
         (case call H c self of
            Inl msg \<Rightarrow> Inl (HookError msg)
          | Inr c' \<Rightarrow> Inr (update_attrs (\<lambda>s. s\<lparr>callback := Some (PlainFunction c')\<rparr>) self)))"

text \<open>
  \<^verbatim>\<open>copy.deepcopy\<close> of an algorithm object, as a value: the copy has the attribute
  values of the original. (The object store further down distinguishes the copy from
  the original.)
\<close>

definition deepcopy :: "('t, 'c, 'x) algorithm \<Rightarrow> ('t, 'c, 'x) algorithm" where
  "deepcopy self = self"

text \<open>
  \<^verbatim>\<open>_each_iteration\<close>, lines 265 to 286. The display only prints (lines 268 to 269).
  A condition \<^verbatim>\<open>if self.save_history\<close> holds of \<^verbatim>\<open>True\<close> only; \<^verbatim>\<open>None.append\<close>
  raises \<^verbatim>\<open>AttributeError\<close>.
\<close>

definition each_iteration ::
  "('t, 'c, 'x) hooks \<Rightarrow> ('t, 'c, 'x) algorithm \<Rightarrow> error + ('t, 'c, 'x) algorithm" where
  "each_iteration H self =
     (case call_callback H self of
        Inl e \<Rightarrow> Inl e
      | Inr self \<Rightarrow>
         if save_history (attrs self) = Some True then
           (let hist = history self;
                cb = callback (attrs self);
                detached = update_attrs (\<lambda>s. s\<lparr>callback := None\<rparr>) (set_history None self);
                obj = deepcopy detached;
                self = update_attrs (\<lambda>s. s\<lparr>callback := cb\<rparr>) (set_history hist detached)
            in case history self of
                 None \<Rightarrow> Inl AttributeError
               | Some h \<Rightarrow> Inr (set_history (Some (h @ [obj])) self))
         else Inr self)"

text \<open>\<^verbatim>\<open>next\<close>, lines 225 to 236. \<^verbatim>\<open>None += 1\<close> raises \<^verbatim>\<open>TypeError\<close>.\<close>

definition next_generation ::
  "('t, 'c, 'x) hooks \<Rightarrow> ('t, 'c, 'x) algorithm \<Rightarrow> error + ('t, 'c, 'x) algorithm" where
  "next_generation H self =
     (case n_gen (attrs self) of
        None \<Rightarrow> Inl TypeError
      | Some n \<Rightarrow>
         (let self = update_attrs (\<lambda>s. s\<lparr>n_gen := Some (n + 1)\<rparr>) self in
          case protected_next H self of
            Inl msg \<Rightarrow> Inl (HookError msg)
          | Inr p \<Rightarrow>
             (case set_optimum H (update_attrs (\<lambda>s. s\<lparr>pop := p\<rparr>) self) of
                Inl e \<Rightarrow> Inl e
              | Inr self \<Rightarrow> each_iteration H self)))"

text \<open>\<^verbatim>\<open>_finalize\<close> (lines 291 to 292) does nothing, and \<^verbatim>\<open>finalize\<close> (lines 238 to 239) calls it.\<close>

definition protected_finalize :: "('t, 'c, 'x) algorithm \<Rightarrow> ('t, 'c, 'x) algorithm" where
  "protected_finalize self = self"

definition finalize :: "('t, 'c, 'x) algorithm \<Rightarrow> ('t, 'c, 'x) algorithm" where
  "finalize self = protected_finalize self"

text \<open>
  The loop of \<^verbatim>\<open>_solve\<close>, lines 258 to 259:
  \<^verbatim>\<open>while self.termination.do_continue(self): self.next()\<close>. The loop ends when the
  criterion says so or a call raises; a run that does neither has no result
  (\<open>None\<close>).
\<close>

partial_function (option) termination_loop ::
  "('t, 'c, 'x) hooks \<Rightarrow> ('t, 'c, 'x) algorithm \<Rightarrow> (error + ('t, 'c, 'x) algorithm) option" where
  "termination_loop H self =
     (case termination_criterion (attrs self) of
        None \<Rightarrow> Some (Inl AttributeError)
      | Some t \<Rightarrow>
         if do_continue H t self then
           (case next_generation H self of
              Inl e \<Rightarrow> Some (Inl e)
            | Inr self' \<Rightarrow> termination_loop H self')
         else Some (Inr self))"

declare termination_loop.simps [code]

text \<open>\<^verbatim>\<open>_solve\<close>, lines 245 to 262.\<close>

definition protected_solve ::
  "('t, 'c, 'x) hooks \<Rightarrow> ('t, 'c, 'x) algorithm \<Rightarrow> (error + ('t, 'c, 'x) algorithm) option" where
  "protected_solve H self =
     (if termination_criterion (attrs self) = None then Some (Inl ConfigurationError)
      else
        (let self = update_attrs (\<lambda>s. s\<lparr>n_gen := Some 1\<rparr>) self in
         case protected_initialize H self of
           Inl msg \<Rightarrow> Some (Inl (HookError msg))
         | Inr p \<Rightarrow>
            (case set_optimum H (update_attrs (\<lambda>s. s\<lparr>pop := p\<rparr>) self) of
               Inl e \<Rightarrow> Some (Inl e)
             | Inr self \<Rightarrow>
                (case each_iteration H self of
                   Inl e \<Rightarrow> Some (Inl e)
                 | Inr self \<Rightarrow>
                    (case termination_loop H self of
                       None \<Rightarrow> None
                     | Some (Inl e) \<Rightarrow> Some (Inl e)
                     | Some (Inr self) \<Rightarrow> Some (Inr (finalize self)))))))"

section \<open>The result\<close>

text \<open>
  What \<^verbatim>\<open>res.X\<close>, \<^verbatim>\<open>res.F\<close>, \<^verbatim>\<open>res.CV\<close> and \<^verbatim>\<open>res.G\<close> can hold: \<^verbatim>\<open>None\<close>, a
  matrix with one row per individual, or one bare row.
\<close>

datatype column = NoColumn | Rows "real list list" | Row "real list"

text \<open>
  Modelled from the spec: the \<^verbatim>\<open>Result\<close> class is defined outside
  \<^verbatim>\<open>algorithm.py\<close>; its attributes are the ones \<^verbatim>\<open>solve\<close> assigns.
\<close>

record ('t, 'c, 'x) result =
  start_time :: real
  end_time :: real
  exec_time :: real
  res_pop :: "population option"
  res_opt :: pyval
  res_X :: column
  res_F :: column
  res_CV :: column
  res_G :: column
  res_problem :: "problem option"
  res_pf :: "'x option"
  res_history :: "('t, 'c, 'x) algorithm list option"

text \<open>\<^verbatim>\<open>len(opt)\<close>: only a population has a length.\<close>

definition len :: "pyval \<Rightarrow> error + nat" where
  "len v = (case v of Pop p \<Rightarrow> Inr (length p) | _ \<Rightarrow> Inl TypeError)"

text \<open>\<^verbatim>\<open>np.any(opt.get("feasible"))\<close>.\<close>

definition any_feasible :: "pyval \<Rightarrow> error + bool" where
  "any_feasible v =
     (case v of
        Pop p \<Rightarrow> Inr (list_ex (\<lambda>r. list_ex (\<lambda>b. b) r) (get_feasible p))
      | _ \<Rightarrow> Inl AttributeError)"

text \<open>\<^verbatim>\<open>M[0]\<close>: the first row of a matrix.\<close>

definition row0 :: "real list list \<Rightarrow> error + real list" where
  "row0 M = (case M of [] \<Rightarrow> Inl IndexError | r # _ \<Rightarrow> Inr r)"

text \<open>
  Lines 190 to 199 of \<^verbatim>\<open>solve\<close>: the optimum to report, from \<^verbatim>\<open>self.opt\<close> and
  \<^verbatim>\<open>self.return_least_infeasible\<close>.
\<close>

definition reported_optimum ::
  "('t, 'c, 'x) hooks \<Rightarrow> ('t, 'c, 'x) algorithm \<Rightarrow> error + pyval" where
  "reported_optimum H self =
     (let opt_local = opt (attrs self) in
      case len opt_local of
        Inl e \<Rightarrow> Inl e
      | Inr n \<Rightarrow>
         if n = 0 then Inr PNone
         else
           (case any_feasible opt_local of
              Inl e \<Rightarrow> Inl e
            | Inr some \<Rightarrow>
               if \<not> some then
                 (if return_least_infeasible (attrs self) then
                    (case opt_local of
                       Pop p \<Rightarrow> filter_optimum (non_dominated_sorting H) p True
                     | _ \<Rightarrow> Inl AttributeError)
                  else Inr PNone)
               else Inr opt_local))"

text \<open>
  Lines 204 to 214 of \<^verbatim>\<open>solve\<close>: the four columns, read from \<^verbatim>\<open>self.opt\<close> when the
  reported optimum is not \<^verbatim>\<open>None\<close>.
\<close>

definition reported_columns ::
  "('t, 'c, 'x) algorithm \<Rightarrow> pyval \<Rightarrow> error + column \<times> column \<times> column \<times> column" where
  "reported_columns self opt_local =
     (if opt_local = PNone then Inr (NoColumn, NoColumn, NoColumn, NoColumn)
      else
        (case opt (attrs self) of
           Pop p \<Rightarrow>
            (let Xs = get_X p; Fs = get_F p; CVs = get_CV p; Gs = get_G p in
             case problem (attrs self) of
               None \<Rightarrow> Inl AttributeError
             | Some pr \<Rightarrow>
                if n_obj pr = 1 \<and> length Xs = 1 then
                  (case (row0 Xs, row0 Fs, row0 CVs, row0 Gs) of
                     (Inr x, Inr f, Inr cv, Inr g) \<Rightarrow> Inr (Row x, Row f, Row cv, Row g)
                   | _ \<Rightarrow> Inl IndexError)
                else Inr (Rows Xs, Rows Fs, Rows CVs, Rows Gs))
         | _ \<Rightarrow> Inl AttributeError))"

text \<open>
  \<^verbatim>\<open>solve\<close>, lines 169 to 223. \<open>t0\<close> and \<open>t1\<close> are the two readings of the
  clock. The outcome is the algorithm after the run together with the result object.
\<close>

definition solve ::
  "('t, 'c, 'x) hooks \<Rightarrow> real \<Rightarrow> real \<Rightarrow> ('t, 'c, 'x) algorithm
     \<Rightarrow> (error + ('t, 'c, 'x) algorithm \<times> ('t, 'c, 'x) result) option" where
  "solve H t0 t1 self =
     (case protected_solve H self of
        None \<Rightarrow> None
      | Some (Inl e) \<Rightarrow> Some (Inl e)
      | Some (Inr self) \<Rightarrow>
         (case reported_optimum H self of
            Inl e \<Rightarrow> Some (Inl e)
          | Inr opt_local \<Rightarrow>
             (case reported_columns self opt_local of
                Inl e \<Rightarrow> Some (Inl e)
              | Inr (Xv, Fv, CVv, Gv) \<Rightarrow>
                 Some (Inr (self,
                   \<lparr>start_time = t0,
                    end_time = t1,
                    exec_time = t1 - t0,
                    res_pop = pop (attrs self),
                    res_opt = opt_local,
                    res_X = Xv,
                    res_F = Fv,
                    res_CV = CVv,
                    res_G = Gv,
                    res_problem = problem (attrs self),
                    res_pf = pf (attrs self),
                    res_history = history self\<rparr>)))))"

section \<open>Notions the properties are stated with\<close>

text \<open>\<open>k\<close> calls of \<^verbatim>\<open>next\<close> in a row, the first on \<open>self\<close>.\<close>

fun next_calls ::
  "('t, 'c, 'x) hooks \<Rightarrow> nat \<Rightarrow> ('t, 'c, 'x) algorithm \<Rightarrow> error + ('t, 'c, 'x) algorithm" where
  "next_calls H 0 self = Inr self"
| "next_calls H (Suc k) self =
     (case next_generation H self of Inl e \<Rightarrow> Inl e | Inr self' \<Rightarrow> next_calls H k self')"

text \<open>The condition of the loop of \<^verbatim>\<open>_solve\<close>: the criterion is set and says to go on.\<close>

definition continues :: "('t, 'c, 'x) hooks \<Rightarrow> ('t, 'c, 'x) algorithm \<Rightarrow> bool" where
  "continues H self =
     (case termination_criterion (attrs self) of None \<Rightarrow> False | Some t \<Rightarrow> do_continue H t self)"

text \<open>
  \<^verbatim>\<open>opt\<close> is up to date: it is what the optimum filter, with
  \<^verbatim>\<open>least_infeasible=True\<close>, answers on the current \<^verbatim>\<open>pop\<close>.
\<close>

definition optimum_current :: "('t, 'c, 'x) hooks \<Rightarrow> ('t, 'c, 'x) algorithm \<Rightarrow> bool" where
  "optimum_current H self \<longleftrightarrow>
     (case pop (attrs self) of
        None \<Rightarrow> False
      | Some p \<Rightarrow> filter_optimum (non_dominated_sorting H) p True = Inr (opt (attrs self)))"

text \<open>
  A concrete algorithm for examples: the first population is given, each generation
  lowers every objective value by one, the criterion is a bound on \<^verbatim>\<open>n_gen\<close>, and
  the callback counts its calls.
\<close>

definition example_hooks :: "population \<Rightarrow> (int, nat, unit) hooks" where
  "example_hooks first =
     \<lparr>non_dominated_sorting = non_dominated_front,
      protected_initialize = (\<lambda>self. Inr (Some first)),
      protected_next = (\<lambda>self.
         Inr (map_option (map (\<lambda>a. a\<lparr>F := map (\<lambda>x. x - 1) (F a)\<rparr>)) (pop (attrs self)))),
      do_continue = (\<lambda>t self. case n_gen (attrs self) of None \<Rightarrow> False | Some n \<Rightarrow> n < t),
      notify = (\<lambda>c self. Inr (Suc c)),
      call = (\<lambda>c self. Inr (Suc c))\<rparr>"

text \<open>
  Its object, initialized for a problem with \<open>n\<close> objectives, with three
  generations as the criterion and the seed 42.
\<close>

definition example_algorithm :: "int \<Rightarrow> bool \<Rightarrow> bool \<Rightarrow> (int, nat, unit) algorithm" where
  "example_algorithm n least save =
     initialize (init (Some (PlainFunction 0)) None None least)
       \<lparr>n_obj = n\<rparr> (Some 3) (Some 42) 0 None None () False save"

section \<open>The history snapshot on an object store\<close>

text \<open>
  Lines 278 to 286 of \<^verbatim>\<open>_each_iteration\<close> once more, on a store of objects: an
  algorithm object refers to its populations and to its history list, a population
  refers to its individuals, and \<^verbatim>\<open>copy.deepcopy\<close> builds new objects. A reference
  is an index into the store; a new object is put at the end. What the lines
  themselves do (detach, copy the algorithm object, attach, append) follows the
  source; what the copy does to a population and to its individuals is decided by
  classes outside \<^verbatim>\<open>algorithm.py\<close> and follows the spec.
\<close>

type_synonym ref = nat

text \<open>
  The attributes of an algorithm object: the values of \<open>attributes\<close>, with
  references for \<^verbatim>\<open>history\<close>, \<^verbatim>\<open>pop\<close> and \<^verbatim>\<open>opt\<close>.
\<close>

record ('t, 'c, 'x) algorithm_object =
  o_callback :: "'c callback option"
  o_display :: "'x option"
  o_return_least_infeasible :: bool
  o_problem :: "problem option"
  o_termination :: "'t option"
  o_default_termination :: "'t option"
  o_seed :: "int option"
  o_pf :: "'x option"
  o_evaluator :: "'x option"
  o_n_gen :: "int option"
  o_save_history :: "bool option"
  o_history :: "ref option"
  o_pop :: "ref option"
  o_opt :: "ref option"
  o_verbose :: "bool option"

datatype ('t, 'c, 'x) object =
    IndividualObject individual
  | PopulationObject "ref list"
  | ListObject "ref list"
  | AlgorithmObject "('t, 'c, 'x) algorithm_object"

type_synonym ('t, 'c, 'x) store = "('t, 'c, 'x) object list"

text \<open>The memo of \<^verbatim>\<open>deepcopy\<close>: the objects copied so far, each with its copy.\<close>

type_synonym memo = "(ref \<times> ref) list"

text \<open>The object a reference leads to.\<close>

definition deref :: "('t, 'c, 'x) store \<Rightarrow> ref \<Rightarrow> ('t, 'c, 'x) object option" where
  "deref st r = (if r < length st then Some (st ! r) else None)"

text \<open>
  Modelled from the spec: the \<^verbatim>\<open>Individual\<close> class (\<^verbatim>\<open>pymoo.model.individual\<close>) is
  defined outside \<^verbatim>\<open>algorithm.py\<close>, so whether it overrides \<^verbatim>\<open>__deepcopy__\<close> is not
  in the source at hand. By the spec the snapshot is "a deep, independent copy of the
  entire algorithm state", "a frozen, non-aliased view": \<^verbatim>\<open>copy.deepcopy\<close> of an
  individual is a new object with the same values. An object of the memo is not
  copied again.
\<close>

definition copy_individual ::
  "memo \<Rightarrow> ('t, 'c, 'x) store \<Rightarrow> ref \<Rightarrow> error + ref \<times> memo \<times> ('t, 'c, 'x) store" where
  "copy_individual memo st r =
     (case map_of memo r of
        Some r' \<Rightarrow> Inr (r', memo, st)
      | None \<Rightarrow>
         (case deref st r of
            Some (IndividualObject i) \<Rightarrow>
              Inr (length st, (r, length st) # memo, st @ [IndividualObject i])
          | _ \<Rightarrow> Inl TypeError))"

text \<open>
  Modelled from the spec: the copy of the individuals a population holds, one after
  the other, as a deep copy of the \<^verbatim>\<open>Population\<close> (defined outside
  \<^verbatim>\<open>algorithm.py\<close>) makes them.
\<close>

fun copy_individuals ::
  "memo \<Rightarrow> ('t, 'c, 'x) store \<Rightarrow> ref list \<Rightarrow> error + ref list \<times> memo \<times> ('t, 'c, 'x) store" where
  "copy_individuals memo st [] = Inr ([], memo, st)"
| "copy_individuals memo st (r # rs) =
     (case copy_individual memo st r of
        Inl e \<Rightarrow> Inl e
      | Inr (r', memo1, st1) \<Rightarrow>
         (case copy_individuals memo1 st1 rs of
            Inl e \<Rightarrow> Inl e
          | Inr (rs', memo2, st2) \<Rightarrow> Inr (r' # rs', memo2, st2)))"

text \<open>
  Modelled from the spec: the \<^verbatim>\<open>Population\<close> class (\<^verbatim>\<open>pymoo.model.population\<close>), and
  with it \<^verbatim>\<open>Population.__deepcopy__\<close> if the class defines one, is outside
  \<^verbatim>\<open>algorithm.py\<close>. By the spec ("deep, independent copy", "non-aliased view")
  \<^verbatim>\<open>copy.deepcopy\<close> of a population is a new population that holds copies of the
  individuals. A copy that made a new population of the same individuals would share
  them with the live population; the properties of isolation below are about the copy
  the spec describes.
\<close>

definition copy_population ::
  "memo \<Rightarrow> ('t, 'c, 'x) store \<Rightarrow> ref \<Rightarrow> error + ref \<times> memo \<times> ('t, 'c, 'x) store" where
  "copy_population memo st r =
     (case map_of memo r of
        Some r' \<Rightarrow> Inr (r', memo, st)
      | None \<Rightarrow>
         (case deref st r of
            Some (PopulationObject rs) \<Rightarrow>
              (case copy_individuals memo st rs of
                 Inl e \<Rightarrow> Inl e
               | Inr (rs', memo1, st1) \<Rightarrow>
                   Inr (length st1, (r, length st1) # memo1, st1 @ [PopulationObject rs']))
          | _ \<Rightarrow> Inl TypeError))"

text \<open>
  \<^verbatim>\<open>copy.deepcopy\<close> of the value of \<^verbatim>\<open>pop\<close> or \<^verbatim>\<open>opt\<close>: \<^verbatim>\<open>None\<close>, or a
  population.
\<close>

definition copy_attribute ::
  "memo \<Rightarrow> ('t, 'c, 'x) store \<Rightarrow> ref option
     \<Rightarrow> error + ref option \<times> memo \<times> ('t, 'c, 'x) store" where
  "copy_attribute memo st a =
     (case a of
        None \<Rightarrow> Inr (None, memo, st)
      | Some r \<Rightarrow>
         (case copy_population memo st r of
            Inl e \<Rightarrow> Inl e
          | Inr (r', memo1, st1) \<Rightarrow> Inr (Some r', memo1, st1)))"

text \<open>
  \<^verbatim>\<open>copy.deepcopy\<close> of an algorithm object, line 282. The class \<^verbatim>\<open>Algorithm\<close>
  defines no \<^verbatim>\<open>__deepcopy__\<close> (lines 16 to 300), so the copy is a new object whose
  attributes are the copies of the attributes of the original: its populations are
  copied, then its history list with every algorithm object in it, then the object
  itself. \<open>depth\<close> is what is left of the recursion limit of the interpreter.
\<close>

fun deepcopy_algorithm ::
  "nat \<Rightarrow> memo \<Rightarrow> ('t, 'c, 'x) store \<Rightarrow> ref \<Rightarrow> error + ref \<times> memo \<times> ('t, 'c, 'x) store"
and deepcopy_algorithms ::
  "nat \<Rightarrow> memo \<Rightarrow> ('t, 'c, 'x) store \<Rightarrow> ref list
     \<Rightarrow> error + ref list \<times> memo \<times> ('t, 'c, 'x) store" where
  "deepcopy_algorithm 0 memo st r = Inl RecursionError"
| "deepcopy_algorithm (Suc depth) memo st r =
     (case map_of memo r of
        Some r' \<Rightarrow> Inr (r', memo, st)
      | None \<Rightarrow>
         (case deref st r of
            Some (AlgorithmObject a) \<Rightarrow>
              (case copy_attribute memo st (o_pop a) of
                 Inl e \<Rightarrow> Inl e
               | Inr (pop', memo1, st1) \<Rightarrow>
                  (case copy_attribute memo1 st1 (o_opt a) of
                     Inl e \<Rightarrow> Inl e
                   | Inr (opt', memo2, st2) \<Rightarrow>
                      (case (case o_history a of
                               None \<Rightarrow> Inr (None, memo2, st2)
                             | Some h \<Rightarrow>
                                (case deref st2 h of
                                   Some (ListObject rs) \<Rightarrow>
                                     (case deepcopy_algorithms depth memo2 st2 rs of
                                        Inl e \<Rightarrow> Inl e
                                      | Inr (rs', memo3, st3) \<Rightarrow>
                                          Inr (Some (length st3), (h, length st3) # memo3,
                                               st3 @ [ListObject rs']))
                                 | _ \<Rightarrow> Inl TypeError)) of
                         Inl e \<Rightarrow> Inl e
                       | Inr (history', memo4, st4) \<Rightarrow>
                           Inr (length st4, (r, length st4) # memo4,
                                st4 @ [AlgorithmObject
                                         (a\<lparr>o_pop := pop', o_opt := opt', o_history := history'\<rparr>)]))))
          | _ \<Rightarrow> Inl TypeError))"
| "deepcopy_algorithms depth memo st [] = Inr ([], memo, st)"
| "deepcopy_algorithms depth memo st (r # rs) =
     (case deepcopy_algorithm depth memo st r of
        Inl e \<Rightarrow> Inl e
      | Inr (r', memo1, st1) \<Rightarrow>
         (case deepcopy_algorithms depth memo1 st1 rs of
            Inl e \<Rightarrow> Inl e
          | Inr (rs', memo2, st2) \<Rightarrow> Inr (r' # rs', memo2, st2)))"

text \<open>Assigning attributes of the algorithm object at a reference.\<close>

definition set_attributes ::
  "('t, 'c, 'x) store \<Rightarrow> ref
     \<Rightarrow> (('t, 'c, 'x) algorithm_object \<Rightarrow> ('t, 'c, 'x) algorithm_object)
     \<Rightarrow> error + ('t, 'c, 'x) store" where
  "set_attributes st r f =
     (case deref st r of
        Some (AlgorithmObject a) \<Rightarrow> Inr (st[r := AlgorithmObject (f a)])
      | _ \<Rightarrow> Inl AttributeError)"

text \<open>\<^verbatim>\<open>l.append(obj)\<close>; \<^verbatim>\<open>None.append\<close> raises \<^verbatim>\<open>AttributeError\<close>.\<close>

definition append_object :: "('t, 'c, 'x) store \<Rightarrow> ref option \<Rightarrow> ref \<Rightarrow> error + ('t, 'c, 'x) store" where
  "append_object st l r =
     (case l of
        None \<Rightarrow> Inl AttributeError
      | Some h \<Rightarrow>
         (case deref st h of
            Some (ListObject rs) \<Rightarrow> Inr (st[h := ListObject (rs @ [r])])
          | _ \<Rightarrow> Inl AttributeError))"

text \<open>
  Lines 278 to 286: detach the history and the callback, copy the algorithm, attach
  the two again, append the copy to the history.
\<close>

definition save_snapshot ::
  "nat \<Rightarrow> ('t, 'c, 'x) store \<Rightarrow> ref \<Rightarrow> error + ('t, 'c, 'x) store" where
  "save_snapshot limit st self =
     (case deref st self of
        Some (AlgorithmObject a) \<Rightarrow>
          if o_save_history a = Some True then
            (let hist = o_history a; cb = o_callback a in
             case set_attributes st self (\<lambda>a. a\<lparr>o_history := None, o_callback := None\<rparr>) of
               Inl e \<Rightarrow> Inl e
             | Inr st1 \<Rightarrow>
                (case deepcopy_algorithm limit [] st1 self of
                   Inl e \<Rightarrow> Inl e
                 | Inr (obj, memo, st2) \<Rightarrow>
                    (case set_attributes st2 self (\<lambda>a. a\<lparr>o_history := hist, o_callback := cb\<rparr>) of
                       Inl e \<Rightarrow> Inl e
                     | Inr st3 \<Rightarrow>
                        (case deref st3 self of
                           Some (AlgorithmObject a3) \<Rightarrow> append_object st3 (o_history a3) obj
                         | _ \<Rightarrow> Inl AttributeError))))
          else Inr st
      | _ \<Rightarrow> Inl AttributeError)"

text \<open>
  Reading an object of the store back as a value: the individuals of a list of
  references, a population, an attribute that is \<^verbatim>\<open>None\<close> or a population, and the
  attributes of an algorithm object (all but \<^verbatim>\<open>history\<close>). The answer is \<open>None\<close> when
  a reference does not lead to an object of the expected class.
\<close>

definition read_individuals :: "('t, 'c, 'x) store \<Rightarrow> ref list \<Rightarrow> population option" where
  "read_individuals st rs =
     those (map (\<lambda>r. case deref st r of Some (IndividualObject i) \<Rightarrow> Some i | _ \<Rightarrow> None) rs)"

definition read_population :: "('t, 'c, 'x) store \<Rightarrow> ref \<Rightarrow> population option" where
  "read_population st r =
     (case deref st r of Some (PopulationObject rs) \<Rightarrow> read_individuals st rs | _ \<Rightarrow> None)"

definition read_attribute :: "('t, 'c, 'x) store \<Rightarrow> ref option \<Rightarrow> population option option" where
  "read_attribute st a =
     (case a of None \<Rightarrow> Some None | Some r \<Rightarrow> map_option Some (read_population st r))"

definition read_attributes :: "('t, 'c, 'x) store \<Rightarrow> ref \<Rightarrow> ('t, 'c, 'x) attributes option" where
  "read_attributes st r =
     (case deref st r of
        Some (AlgorithmObject a) \<Rightarrow>
          (case (read_attribute st (o_pop a), read_attribute st (o_opt a)) of
             (Some p, Some q) \<Rightarrow>
               Some \<lparr>callback = o_callback a,
                     display = o_display a,
                     return_least_infeasible = o_return_least_infeasible a,
                     problem = o_problem a,
                     termination_criterion = o_termination a,
                     default_termination = o_default_termination a,
                     seed = o_seed a,
                     pf = o_pf a,
                     evaluator = o_evaluator a,
                     n_gen = o_n_gen a,
                     save_history = o_save_history a,
                     pop = p,
                     opt = (case q of None \<Rightarrow> PNone | Some q' \<Rightarrow> Pop q'),
                     verbose = o_verbose a\<rparr>
           | _ \<Rightarrow> None)
      | _ \<Rightarrow> None)"

text \<open>The \<^verbatim>\<open>history\<close> attribute of the algorithm object at a reference.\<close>

definition history_ref :: "('t, 'c, 'x) store \<Rightarrow> ref \<Rightarrow> ref option option" where
  "history_ref st r =
     (case deref st r of Some (AlgorithmObject a) \<Rightarrow> Some (o_history a) | _ \<Rightarrow> None)"

text \<open>
  Reading an algorithm object back as a value of the type \<open>algorithm\<close> that
  \<open>each_iteration\<close> works on. A snapshot is an algorithm object whose \<^verbatim>\<open>history\<close>
  is \<^verbatim>\<open>None\<close>; the live algorithm has \<^verbatim>\<open>None\<close> or a list of snapshots. The answer is
  \<open>None\<close> when the store holds anything else there.
\<close>

definition read_snapshot :: "('t, 'c, 'x) store \<Rightarrow> ref \<Rightarrow> ('t, 'c, 'x) algorithm option" where
  "read_snapshot st r =
     (case (read_attributes st r, history_ref st r) of
        (Some s, Some None) \<Rightarrow> Some (Algorithm s None)
      | _ \<Rightarrow> None)"

definition read_algorithm :: "('t, 'c, 'x) store \<Rightarrow> ref \<Rightarrow> ('t, 'c, 'x) algorithm option" where
  "read_algorithm st r =
     (case (read_attributes st r, history_ref st r) of
        (Some s, Some None) \<Rightarrow> Some (Algorithm s None)
      | (Some s, Some (Some h)) \<Rightarrow>
          (case deref st h of
             Some (ListObject rs) \<Rightarrow>
               map_option (\<lambda>hs. Algorithm s (Some hs)) (those (map (read_snapshot st) rs))
           | _ \<Rightarrow> None)
      | _ \<Rightarrow> None)"

text \<open>
  A population object made after the store had \<open>n0\<close> objects, whose individuals were
  all made after that, too.
\<close>

definition fresh_population :: "nat \<Rightarrow> ('t, 'c, 'x) store \<Rightarrow> ref \<Rightarrow> bool" where
  "fresh_population n0 st r \<longleftrightarrow>
     n0 \<le> r \<and> r < length st \<and>
     (case st ! r of
        PopulationObject rs \<Rightarrow> list_all (\<lambda>x. n0 \<le> x \<and> x < length st) rs
      | _ \<Rightarrow> False)"

text \<open>What the memo promises of an object \<open>r\<close> and its copy \<open>r'\<close>.\<close>

definition copy_of :: "nat \<Rightarrow> ('t, 'c, 'x) store \<Rightarrow> ref \<Rightarrow> ref \<Rightarrow> bool" where
  "copy_of n0 st r r' \<longleftrightarrow>
     (case st ! r of
        IndividualObject i \<Rightarrow> st ! r' = IndividualObject i
      | PopulationObject rs \<Rightarrow>
          fresh_population n0 st r' \<and> read_population st r' = read_population st r
          \<and> read_population st r \<noteq> None
      | _ \<Rightarrow> True)"

definition memo_ok :: "nat \<Rightarrow> ('t, 'c, 'x) store \<Rightarrow> memo \<Rightarrow> bool" where
  "memo_ok n0 st memo \<longleftrightarrow>
     n0 \<le> length st \<and>
     list_all (\<lambda>(r, r'). r < n0 \<and> n0 \<le> r' \<and> r' < length st \<and> copy_of n0 st r r') memo"

text \<open>An attribute that is \<^verbatim>\<open>None\<close> or a population made after the first \<open>n0\<close> objects.\<close>

definition fresh_attribute :: "nat \<Rightarrow> ('t, 'c, 'x) store \<Rightarrow> ref option \<Rightarrow> bool" where
  "fresh_attribute n0 st a \<longleftrightarrow> (case a of None \<Rightarrow> True | Some r \<Rightarrow> fresh_population n0 st r)"

text \<open>An object that is neither an individual nor a population.\<close>

definition inert :: "('t, 'c, 'x) object \<Rightarrow> bool" where
  "inert ob \<longleftrightarrow>
     (case ob of IndividualObject _ \<Rightarrow> False | PopulationObject _ \<Rightarrow> False | _ \<Rightarrow> True)"

text \<open>
  The store \<open>st'\<close> has every object of \<open>st\<close> from the reference \<open>n0\<close> on; the
  objects before \<open>n0\<close> may differ in any way.
\<close>

definition agree :: "nat \<Rightarrow> ('t, 'c, 'x) store \<Rightarrow> ('t, 'c, 'x) store \<Rightarrow> bool" where
  "agree n0 st st' \<longleftrightarrow>
     length st \<le> length st' \<and> (\<forall>r. n0 \<le> r \<and> r < length st \<longrightarrow> st' ! r = st ! r)"

text \<open>
  A store for examples: two individuals, the population of both, the optimum with the
  first, an empty history list, and the algorithm object.
\<close>

definition example_store :: "(int, nat, unit) store" where
  "example_store =
     [IndividualObject \<lparr>X = [3], F = [3], G = [], CV = 0, feasible = True\<rparr>,
      IndividualObject \<lparr>X = [5], F = [5], G = [], CV = 0, feasible = True\<rparr>,
      PopulationObject [0, 1],
      PopulationObject [0],
      ListObject [],
      AlgorithmObject
        \<lparr>o_callback = Some (PlainFunction 1), o_display = None,
         o_return_least_infeasible = False, o_problem = Some \<lparr>n_obj = 1\<rparr>,
         o_termination = Some 3, o_default_termination = None, o_seed = Some 42,
         o_pf = None, o_evaluator = Some (), o_n_gen = Some 1, o_save_history = Some True,
         o_history = Some 4, o_pop = Some 2, o_opt = Some 3, o_verbose = Some False\<rparr>]"

section \<open>Properties of the optimum filter\<close>

lemma mask_select_feasible:
  "map fst (filter snd (zip ps (map f ps))) = filter f ps"
  by (induction ps) auto

lemma feasible_subset:
  "ps \<noteq> [] \<Longrightarrow> column0 (get_feasible ps) = Inr (map feasible ps)"
  by (auto simp: column0_def get_feasible_def list_ex_iff comp_def)

lemma mask_select_map: "mask_select ps (map feasible ps) = Inr (filter feasible ps)"
  by (simp add: mask_select_def mask_select_feasible)

lemma argmin_list_less: "xs \<noteq> [] \<Longrightarrow> argmin_list xs < length xs"
  by (induction xs rule: argmin_list.induct) (auto simp: Let_def)

lemma argmin_list_le: "j < length xs \<Longrightarrow> xs ! argmin_list xs \<le> xs ! j"
proof (induction xs arbitrary: j rule: argmin_list.induct)
  case 1 then show ?case by simp
next
  case (2 x) then show ?case by simp
next
  case (3 x y ys)
  let ?i = "argmin_list (y # ys)"
  show ?case
  proof (cases j)
    case 0
    then show ?thesis by (auto simp: Let_def)
  next
    case (Suc k)
    with 3 have "(y # ys) ! ?i \<le> (y # ys) ! k" by simp
    with Suc show ?thesis by (auto simp: Let_def)
  qed
qed

lemma argmin_list_first: "j < argmin_list xs \<Longrightarrow> xs ! argmin_list xs < xs ! j"
proof (induction xs arbitrary: j rule: argmin_list.induct)
  case 1 then show ?case by simp
next
  case (2 x) then show ?case by simp
next
  case (3 x y ys)
  let ?i = "argmin_list (y # ys)"
  show ?case
  proof (cases "x \<le> (y # ys) ! ?i")
    case True
    with 3 show ?thesis by (simp add: Let_def)
  next
    case False
    show ?thesis
    proof (cases j)
      case 0
      with False show ?thesis by (simp add: Let_def)
    next
      case (Suc k)
      with 3(2) False have "k < ?i" by (simp add: Let_def)
      with 3(1) have "(y # ys) ! ?i < (y # ys) ! k" by simp
      with Suc False show ?thesis by (simp add: Let_def)
    qed
  qed
qed

lemma dominates_iff:
  "length a = length b \<Longrightarrow>
   dominates a b \<longleftrightarrow> (\<forall>k<length a. a ! k \<le> b ! k) \<and> (\<exists>k<length a. a ! k < b ! k)"
  by (auto simp: dominates_def list_all_iff list_ex_iff set_zip)

lemma non_dominated_front_contract: "nds_contract non_dominated_front"
  unfolding nds_contract_def non_dominated_front_def list_ex_iff
  by (auto simp: in_set_conv_nth) (meson nth_mem)

lemma nth_filter_positions:
  "map (\<lambda>i. xs ! i) (filter (\<lambda>i. Q (xs ! i)) [0..<length xs]) = filter Q xs"
proof (induction xs rule: rev_induct)
  case Nil then show ?case by simp
next
  case (snoc x xs)
  have "filter (\<lambda>i. Q ((xs @ [x]) ! i)) [0..<length xs] = filter (\<lambda>i. Q (xs ! i)) [0..<length xs]"
    by (rule filter_cong) (auto simp: nth_append)
  moreover have "map (\<lambda>i. (xs @ [x]) ! i) (filter (\<lambda>i. Q (xs ! i)) [0..<length xs])
     = map (\<lambda>i. xs ! i) (filter (\<lambda>i. Q (xs ! i)) [0..<length xs])"
    by (rule map_cong) (auto simp: nth_append)
  ultimately show ?case using snoc by simp
qed

lemma mset_front:
  assumes "distinct I" and "set I = {i. i < length xs \<and> Q (xs ! i)}"
  shows "mset (map (\<lambda>i. xs ! i) I) = mset (filter Q xs)"
proof -
  let ?J = "filter (\<lambda>i. Q (xs ! i)) [0..<length xs]"
  have "distinct ?J" by simp
  moreover have "set I = set ?J" using assms(2) by auto
  ultimately have "mset I = mset ?J" using assms(1) by (metis set_eq_iff_mset_eq_distinct)
  then have "mset (map (\<lambda>i. xs ! i) I) = mset (map (\<lambda>i. xs ! i) ?J)"
    by (metis mset_map)
  then show ?thesis by (simp add: nth_filter_positions)
qed

lemma filter_optimum_feasible_multi:
  assumes feas: "filter feasible ps \<noteq> []"
      and m: "1 < length (F (hd (filter feasible ps)))"
      and rng: "\<forall>i\<in>set (nds (map F (filter feasible ps))). i < length (filter feasible ps)"
  shows "filter_optimum nds ps li =
         Inr (Pop (map (\<lambda>i. filter feasible ps ! i) (nds (map F (filter feasible ps)))))"
proof -
  from feas have ne: "ps \<noteq> []" by auto
  obtain a as where as: "filter feasible ps = a # as" using feas by (cases "filter feasible ps") auto
  with m have m': "1 < length (F a)" by simp
  show ?thesis
    using rng m' unfolding filter_optimum_def feasible_subset[OF ne]
    by (simp add: mask_select_map as get_F_def shape1_def index_many_def list_all_iff del: filter.simps)
qed

lemma front_positions:
  "{i. i < length P \<and> \<not> (\<exists>j<length P. dominates (F (P ! j)) (F (P ! i)))} =
   {i. i < length P \<and> \<not> list_ex (\<lambda>b. dominates (F b) (F (P ! i))) P}"
  by (auto simp: list_ex_iff in_set_conv_nth) (meson nth_mem)

text \<open>
  Claim C1. For a population with at least one feasible individual and more than one
  objective (every objective vector has \<open>m > 1\<close> entries), and a sorting service
  that meets its contract, \<^verbatim>\<open>filter_optimum\<close> returns the population made of the
  feasible individuals at the indices the service answered, in the order of that
  answer; and this population has exactly the members of the non-dominated subset of
  the feasible subset, each as often as it occurs there.
\<close>

theorem filter_optimum_multi_objective:
  assumes "\<exists>a\<in>set ps. feasible a"
      and "\<forall>a\<in>set ps. length (F a) = m"
      and "1 < m"
      and "nds_contract nds"
  shows "filter_optimum nds ps li =
           Inr (Pop (map (\<lambda>i. filter feasible ps ! i) (nds (get_F (filter feasible ps)))))
       \<and> mset (map (\<lambda>i. filter feasible ps ! i) (nds (get_F (filter feasible ps)))) =
           mset (non_dominated_subset (filter feasible ps))"
proof -
  let ?P = "filter feasible ps"
  let ?M = "get_F ?P"
  from assms(1) have ne: "?P \<noteq> []" by (auto simp: filter_empty_conv)
  then have "hd ?P \<in> set ps" by (metis filter_is_subset hd_in_set subsetD)
  with assms(2,3) have m: "1 < length (F (hd ?P))" by simp
  from assms(4) have d: "distinct (nds ?M)"
    and s: "set (nds ?M) = {i. i < length ?M \<and> \<not> (\<exists>j<length ?M. dominates (?M ! j) (?M ! i))}"
    unfolding nds_contract_def by auto
  have len: "length ?M = length ?P" by (simp add: get_F_def)
  from s len have rng: "\<forall>i\<in>set (nds (map F ?P)). i < length ?P" by (auto simp: get_F_def)
  have first: "filter_optimum nds ps li = Inr (Pop (map (\<lambda>i. ?P ! i) (nds ?M)))"
    using filter_optimum_feasible_multi[of ps nds li] ne m rng by (simp add: get_F_def)
  have "set (nds ?M) =
        {i. i < length ?P \<and> \<not> list_ex (\<lambda>b. dominates (F b) (F (?P ! i))) ?P}"
    unfolding s len using front_positions[of ?P] by (simp add: get_F_def cong: conj_cong)
  from mset_front[OF d this]
  have "mset (map (\<lambda>i. ?P ! i) (nds ?M)) = mset (non_dominated_subset ?P)"
    by (simp add: non_dominated_subset_def)
  with first show ?thesis by simp
qed

lemma concat_one_column:
  "\<forall>a\<in>set P. length (f a) = 1 \<Longrightarrow> concat (map f P) = map (\<lambda>a. f a ! 0) P"
proof (induction P)
  case Nil then show ?case by simp
next
  case (Cons a P)
  then have "length (f a) = 1" by simp
  then have "f a = [f a ! 0]" by (cases "f a") auto
  with Cons show ?case by simp
qed

lemma filter_optimum_not_Ind: "filter_optimum nds ps li \<noteq> Inr (Ind a)"
  by (auto simp: filter_optimum_def index_many_def index_one_def Let_def
           split: sum.splits pyval.splits if_splits)

lemma filter_optimum_feasible_single:
  assumes feas: "filter feasible ps \<noteq> []"
      and one: "\<forall>a\<in>set (filter feasible ps). length (F a) = 1"
  shows "filter_optimum nds ps li =
         Inr (Pop [filter feasible ps ! argmin_list (map (\<lambda>a. F a ! 0) (filter feasible ps))])"
proof -
  let ?P = "filter feasible ps"
  from feas have ne: "ps \<noteq> []" by auto
  obtain a as where as: "?P = a # as" using feas by (cases ?P) auto
  with one have m: "length (F a) = 1" by (metis list.set_intros(1))
  have c: "concat (map F ?P) = map (\<lambda>a. F a ! 0) ?P"
    using one by (rule concat_one_column)
  have lt: "argmin_list (map (\<lambda>a. F a ! 0) ?P) < length ?P"
    using argmin_list_less[of "map (\<lambda>a. F a ! 0) ?P"] feas by simp
  have sh: "shape1 (get_F ?P) = Inr 1" using m by (simp add: shape1_def get_F_def as)
  have am: "argmin (get_F ?P) = Inr (argmin_list (map (\<lambda>a. F a ! 0) ?P))"
    using feas by (simp add: argmin_def get_F_def c)
  show ?thesis
    unfolding filter_optimum_def feasible_subset[OF ne] 
    using feas lt by (simp add: mask_select_map sh am index_one_def)
qed

text \<open>
  Claim C2. For a population with exactly one objective and at least one feasible
  individual, \<^verbatim>\<open>filter_optimum\<close> returns the one-element population of the feasible
  individual with the minimum objective value, the first such in the order of the
  collection. Whatever the input, the result is never a bare individual.
\<close>

theorem filter_optimum_single_objective:
  assumes "\<exists>a\<in>set ps. feasible a"
      and "\<forall>a\<in>set ps. length (F a) = 1"
  shows "(\<exists>i<length (filter feasible ps).
            filter_optimum nds ps li = Inr (Pop [filter feasible ps ! i])
          \<and> (\<forall>j<length (filter feasible ps).
                F (filter feasible ps ! i) ! 0 \<le> F (filter feasible ps ! j) ! 0)
          \<and> (\<forall>j<i. F (filter feasible ps ! i) ! 0 < F (filter feasible ps ! j) ! 0))
       \<and> filter_optimum nds ps li \<noteq> Inr PNone
       \<and> (\<forall>service qs least a. filter_optimum service qs least \<noteq> Inr (Ind a))"
proof -
  let ?P = "filter feasible ps"
  let ?v = "map (\<lambda>a. F a ! 0) ?P"
  let ?i = "argmin_list ?v"
  from assms(1) have ne: "?P \<noteq> []" by (auto simp: filter_empty_conv)
  from assms(2) have one: "\<forall>a\<in>set ?P. length (F a) = 1" by simp
  have r: "filter_optimum nds ps li = Inr (Pop [?P ! ?i])"
    using filter_optimum_feasible_single[of ps nds li] ne one by blast
  have lt: "?i < length ?P" using argmin_list_less[of ?v] ne by simp
  have le: "\<forall>j<length ?P. F (?P ! ?i) ! 0 \<le> F (?P ! j) ! 0"
  proof (intro allI impI)
    fix j assume j: "j < length ?P"
    then have "?v ! ?i \<le> ?v ! j" using argmin_list_le[of j ?v] by simp
    with j lt show "F (?P ! ?i) ! 0 \<le> F (?P ! j) ! 0" by simp
  qed
  have fst: "\<forall>j<?i. F (?P ! ?i) ! 0 < F (?P ! j) ! 0"
  proof (intro allI impI)
    fix j assume j: "j < ?i"
    then have "?v ! ?i < ?v ! j" using argmin_list_first[of j ?v] by simp
    with j lt show "F (?P ! ?i) ! 0 < F (?P ! j) ! 0" by simp
  qed
  have ni: "\<forall>service qs least a. filter_optimum service qs least \<noteq> Inr (Ind a)"
    by (simp add: filter_optimum_not_Ind)
  have nn: "filter_optimum nds ps li \<noteq> Inr PNone" using r by simp
  from r lt le fst have "\<exists>i<length ?P.
            filter_optimum nds ps li = Inr (Pop [?P ! i])
          \<and> (\<forall>j<length ?P. F (?P ! i) ! 0 \<le> F (?P ! j) ! 0)
          \<and> (\<forall>j<i. F (?P ! i) ! 0 < F (?P ! j) ! 0)" by blast
  with ni nn show ?thesis by blast
qed

lemma all_infeasible_filter: "\<forall>a\<in>set ps. \<not> feasible a \<Longrightarrow> filter feasible ps = []"
  by (simp add: filter_empty_conv)

text \<open>
  Claim C3, as amended: for a population that is not empty and has no feasible
  individual, \<^verbatim>\<open>filter_optimum\<close> returns \<^verbatim>\<open>None\<close> when \<^verbatim>\<open>least_infeasible\<close> is
  false, and the one-element population of the individual with the minimum \<^verbatim>\<open>CV\<close>,
  the first such in the order of the collection, when it is true.
\<close>

theorem filter_optimum_no_feasible:
  assumes "ps \<noteq> []" and "\<forall>a\<in>set ps. \<not> feasible a"
  shows "filter_optimum nds ps False = Inr PNone
       \<and> (\<exists>i<length ps.
            filter_optimum nds ps True = Inr (Pop [ps ! i])
          \<and> (\<forall>j<length ps. CV (ps ! i) \<le> CV (ps ! j))
          \<and> (\<forall>j<i. CV (ps ! i) < CV (ps ! j)))"
proof -
  let ?v = "map CV ps"
  let ?i = "argmin_list ?v"
  have c: "concat (get_CV ps) = ?v" by (simp add: get_CV_def concat_map_singleton)
  have e: "filter feasible ps = []" using assms(2) by (rule all_infeasible_filter)
  have lt: "?i < length ps" using argmin_list_less[of ?v] assms(1) by simp
  have n: "filter_optimum nds ps False = Inr PNone"
    unfolding filter_optimum_def feasible_subset[OF assms(1)] by (simp add: mask_select_map e)
  have r: "filter_optimum nds ps True = Inr (Pop [ps ! ?i])"
    unfolding filter_optimum_def feasible_subset[OF assms(1)]
    using lt assms(1) by (simp add: mask_select_map e argmin_def c index_one_def)
  have le: "\<forall>j<length ps. CV (ps ! ?i) \<le> CV (ps ! j)"
  proof (intro allI impI)
    fix j assume j: "j < length ps"
    then have "?v ! ?i \<le> ?v ! j" using argmin_list_le[of j ?v] by simp
    with j lt show "CV (ps ! ?i) \<le> CV (ps ! j)" by simp
  qed
  have fst: "\<forall>j<?i. CV (ps ! ?i) < CV (ps ! j)"
  proof (intro allI impI)
    fix j assume j: "j < ?i"
    then have "?v ! ?i < ?v ! j" using argmin_list_first[of j ?v] by simp
    with j lt show "CV (ps ! ?i) < CV (ps ! j)" by simp
  qed
  from n r lt le fst show ?thesis by blast
qed

text \<open>
  The empty population has no feasible individual, and \<^verbatim>\<open>filter_optimum\<close> raises
  on it (line 305), whatever \<^verbatim>\<open>least_infeasible\<close> is: claim C3 does not hold of every
  population without a feasible individual.
\<close>

theorem filter_optimum_empty_population:
  "filter_optimum non_dominated_front [] True = (Inl IndexError :: error + pyval)
 \<and> filter_optimum non_dominated_front [] False = (Inl IndexError :: error + pyval)"
  by (simp add: filter_optimum_def column0_def get_feasible_def)

text \<open>Claim C1 at five individuals with two objectives, one of them infeasible.\<close>

theorem filter_optimum_multi_objective_witness:
  "filter_optimum non_dominated_front
     [sample [1, 4] 0 True, sample [0, 0] 1 False, sample [2, 3] 0 True,
      sample [2, 5] 0 True, sample [4, 1] 0 True] False
   = Inr (Pop [sample [1, 4] 0 True, sample [2, 3] 0 True, sample [4, 1] 0 True])
 \<and> non_dominated_subset
     [sample [1, 4] 0 True, sample [2, 3] 0 True, sample [2, 5] 0 True, sample [4, 1] 0 True]
   = [sample [1, 4] 0 True, sample [2, 3] 0 True, sample [4, 1] 0 True]"
  using filter_optimum_multi_objective [of
     "[sample [1, 4] 0 True, sample [0, 0] 1 False, sample [2, 3] 0 True,
       sample [2, 5] 0 True, sample [4, 1] 0 True]" 2 non_dominated_front False]
    non_dominated_front_contract
  by (simp add: sample_def get_F_def non_dominated_front_def dominates_def non_dominated_subset_def)

text \<open>Claim C2 at four individuals with one objective; the minimum 2 occurs twice.\<close>

theorem filter_optimum_single_objective_witness:
  "filter_optimum non_dominated_front
     [sample [3] 0 True, sample [1] 2 False, sample [2] 0 True, sample [2] 0 True] False
   = Inr (Pop [sample [2] 0 True])"
  using filter_optimum_single_objective [of
     "[sample [3] 0 True, sample [1] 2 False, sample [2] 0 True, sample [2] 0 True]"
     non_dominated_front False]
  by (auto simp: sample_def less_Suc_eq)

text \<open>Claim C3 at the constraint violations 0.5, 0.1 and 0.9.\<close>

theorem filter_optimum_no_feasible_witness:
  "filter_optimum non_dominated_front
     [sample [0] (1/2) False, sample [0] (1/10) False, sample [0] (9/10) False] True
   = Inr (Pop [sample [0] (1/10) False])
 \<and> filter_optimum non_dominated_front
     [sample [0] (1/2) False, sample [0] (1/10) False, sample [0] (9/10) False] False
   = Inr PNone"
  using filter_optimum_no_feasible [of
     "[sample [0] (1/2) False, sample [0] (1/10) False, sample [0] (9/10) False]"
     non_dominated_front]
  by (auto simp: sample_def less_Suc_eq)

section \<open>Properties of the algorithm\<close>

subsection \<open>The loop and the configuration error\<close>

lemma attrs_update_attrs: "attrs (update_attrs f a) = f (attrs a)"
  by (simp add: update_attrs_def)

lemma history_update_attrs: "history (update_attrs f a) = history a"
  by (simp add: update_attrs_def)

lemma attrs_set_history: "attrs (set_history h a) = attrs a"
  by (simp add: set_history_def)

lemma history_set_history: "history (set_history h a) = h"
  by (simp add: set_history_def)

lemmas algorithm_simps =
  attrs_update_attrs history_update_attrs attrs_set_history history_set_history

lemma termination_loop_calls_aux:
  assumes "termination_loop H a = Some r"
  shows "\<forall>a'. r = Inr a' \<longrightarrow>
           (\<exists>k. next_calls H k a = Inr a' \<and> \<not> continues H a'
              \<and> (\<forall>i<k. \<forall>b. next_calls H i a = Inr b \<longrightarrow> continues H b))"
  using assms
proof (induction rule: termination_loop.raw_induct[rotated 1, consumes 1])
  case (1 loop H a r)
  show ?case
  proof (intro allI impI)
    fix a' assume r: "r = Inr a'"
    from 1(2) r obtain t where t: "termination_criterion (attrs a) = Some t"
      by (cases "termination_criterion (attrs a)") auto
    show "\<exists>k. next_calls H k a = Inr a' \<and> \<not> continues H a'
              \<and> (\<forall>i<k. \<forall>b. next_calls H i a = Inr b \<longrightarrow> continues H b)"
    proof (cases "do_continue H t a")
      case False
      with 1(2) r t have "a' = a" by simp
      with False t have "next_calls H 0 a = Inr a' \<and> \<not> continues H a'
              \<and> (\<forall>i<0. \<forall>b. next_calls H i a = Inr b \<longrightarrow> continues H b)"
        by (simp add: continues_def)
      then show ?thesis by blast
    next
      case True
      with 1(2) r t obtain b where b: "next_generation H a = Inr b" and l: "loop H b = Some (Inr a')"
        by (cases "next_generation H a") auto
      from 1(1)[OF l] obtain k where k: "next_calls H k b = Inr a'" "\<not> continues H a'"
        "\<forall>i<k. \<forall>c. next_calls H i b = Inr c \<longrightarrow> continues H c" by blast
      have "\<forall>i<Suc k. \<forall>c. next_calls H i a = Inr c \<longrightarrow> continues H c"
      proof (intro allI impI)
        fix i c assume i: "i < Suc k" and c: "next_calls H i a = Inr c"
        show "continues H c"
        proof (cases i)
          case 0
          with c True t show ?thesis by (simp add: continues_def)
        next
          case (Suc j)
          with i c b k(3) show ?thesis by simp
        qed
      qed
      moreover have "next_calls H (Suc k) a = Inr a'" using b k(1) by simp
      ultimately show ?thesis using k(2) by blast
    qed
  qed
qed

lemma termination_loop_calls:
  assumes "termination_loop H a = Some (Inr a')"
  shows "\<exists>k. next_calls H k a = Inr a' \<and> \<not> continues H a'
           \<and> (\<forall>i<k. \<forall>b. next_calls H i a = Inr b \<longrightarrow> continues H b)"
  using termination_loop_calls_aux[OF assms] by blast











subsection \<open>What a generation and a run change\<close>

lemma call_callback_frame:
  assumes "call_callback H a = Inr a'"
  shows "history a' = history a \<and> (\<exists>cb. attrs a' = (attrs a)\<lparr>callback := cb\<rparr>)"
proof (cases "callback (attrs a)")
  case None
  with assms have "a' = a" by (simp add: call_callback_def)
  moreover have "attrs a = (attrs a)\<lparr>callback := callback (attrs a)\<rparr>" by simp
  ultimately show ?thesis by metis
next
  case (Some c)
  with assms show ?thesis
    by (cases c) (auto simp: call_callback_def algorithm_simps split: sum.splits)
qed

lemma each_iteration_frame:
  assumes "each_iteration H a = Inr a'"
  shows "\<exists>cb. attrs a' = (attrs a)\<lparr>callback := cb\<rparr>"
proof -
  from assms obtain b where b: "call_callback H a = Inr b"
    by (cases "call_callback H a") (auto simp: each_iteration_def)
  from call_callback_frame[OF b] obtain cb where cb: "attrs b = (attrs a)\<lparr>callback := cb\<rparr>"
    by blast
  have "attrs a' = attrs b"
    using assms b
    by (auto simp: each_iteration_def Let_def algorithm_simps split: if_splits option.splits)
  with cb show ?thesis by metis
qed

lemma set_optimum_result:
  assumes "set_optimum H a = Inr a'"
  shows "\<exists>p. pop (attrs a) = Some p
           \<and> filter_optimum (non_dominated_sorting H) p True = Inr (opt (attrs a'))
           \<and> a' = update_attrs (\<lambda>s. s\<lparr>opt := opt (attrs a')\<rparr>) a"
  using assms
  by (auto simp: set_optimum_def algorithm_simps split: option.splits sum.splits)

lemma generation_result:
  assumes s: "set_optimum H a = Inr b" and e: "each_iteration H b = Inr c"
  shows "optimum_current H c \<and> n_gen (attrs c) = n_gen (attrs a)
       \<and> termination_criterion (attrs c) = termination_criterion (attrs a)
       \<and> return_least_infeasible (attrs c) = return_least_infeasible (attrs a)
       \<and> problem (attrs c) = problem (attrs a)
       \<and> pop (attrs c) = pop (attrs a)"
proof -
  from set_optimum_result[OF s] obtain p where p: "pop (attrs a) = Some p"
    "filter_optimum (non_dominated_sorting H) p True = Inr (opt (attrs b))"
    "b = update_attrs (\<lambda>s. s\<lparr>opt := opt (attrs b)\<rparr>) a" by blast
  from each_iteration_frame[OF e] obtain cb where cb: "attrs c = (attrs b)\<lparr>callback := cb\<rparr>"
    by blast
  from p(3) have "attrs b = (attrs a)\<lparr>opt := opt (attrs b)\<rparr>"
    by (metis attrs_update_attrs)
  with cb have c: "attrs c = (attrs a)\<lparr>opt := opt (attrs b), callback := cb\<rparr>" by simp
  show ?thesis using p(1,2) by (simp add: c optimum_current_def)
qed

lemma next_generation_result:
  assumes "next_generation H a = Inr a'"
  shows "\<exists>n. n_gen (attrs a) = Some n \<and> n_gen (attrs a') = Some (n + 1)
           \<and> optimum_current H a'
           \<and> termination_criterion (attrs a') = termination_criterion (attrs a)
           \<and> return_least_infeasible (attrs a') = return_least_infeasible (attrs a)
           \<and> problem (attrs a') = problem (attrs a)"
proof -
  from assms obtain n where n: "n_gen (attrs a) = Some n"
    by (cases "n_gen (attrs a)") (auto simp: next_generation_def)
  let ?a1 = "update_attrs (\<lambda>s. s\<lparr>n_gen := Some (n + 1)\<rparr>) a"
  from assms n obtain p where p: "protected_next H ?a1 = Inr p"
    by (cases "protected_next H ?a1") (auto simp: next_generation_def Let_def)
  let ?a2 = "update_attrs (\<lambda>s. s\<lparr>pop := p\<rparr>) ?a1"
  from assms n p obtain b where b: "set_optimum H ?a2 = Inr b"
    by (cases "set_optimum H ?a2") (auto simp: next_generation_def Let_def)
  from assms n p b have e: "each_iteration H b = Inr a'"
    by (simp add: next_generation_def Let_def)
  from generation_result[OF b e] show ?thesis using n by (simp add: algorithm_simps)
qed

lemma next_calls_result:
  assumes "next_calls H k a = Inr a'" and "n_gen (attrs a) = Some n" and "optimum_current H a"
  shows "n_gen (attrs a') = Some (n + int k) \<and> optimum_current H a'
       \<and> termination_criterion (attrs a') = termination_criterion (attrs a)
       \<and> return_least_infeasible (attrs a') = return_least_infeasible (attrs a)
       \<and> problem (attrs a') = problem (attrs a)"
  using assms
proof (induction k arbitrary: a n)
  case 0
  then show ?case by simp
next
  case (Suc k)
  from Suc.prems(1) obtain b where b: "next_generation H a = Inr b" and r: "next_calls H k b = Inr a'"
    by (cases "next_generation H a") auto
  from next_generation_result[OF b] Suc.prems(2)
  have nb: "n_gen (attrs b) = Some (n + 1)" and ob: "optimum_current H b"
    and fb: "termination_criterion (attrs b) = termination_criterion (attrs a)"
       "return_least_infeasible (attrs b) = return_least_infeasible (attrs a)"
       "problem (attrs b) = problem (attrs a)"
    by auto
  from Suc.IH[OF r nb ob] fb show ?case by (simp add: algebra_simps)
qed

lemma protected_solve_run:
  assumes "protected_solve H a = Some (Inr a')"
  shows "\<exists>p s0 s1 k.
           protected_initialize H (update_attrs (\<lambda>s. s\<lparr>n_gen := Some 1\<rparr>) a) = Inr p
         \<and> set_optimum H (update_attrs (\<lambda>s. s\<lparr>pop := p\<rparr>)
                             (update_attrs (\<lambda>s. s\<lparr>n_gen := Some 1\<rparr>) a)) = Inr s0
         \<and> each_iteration H s0 = Inr s1
         \<and> next_calls H k s1 = Inr a'
         \<and> \<not> continues H a'
         \<and> (\<forall>i<k. \<forall>b. next_calls H i s1 = Inr b \<longrightarrow> continues H b)"
proof -
  let ?a1 = "update_attrs (\<lambda>s. s\<lparr>n_gen := Some 1\<rparr>) a"
  from assms have t: "termination_criterion (attrs a) \<noteq> None"
    by (auto simp: protected_solve_def split: if_splits)
  from assms t obtain p where p: "protected_initialize H ?a1 = Inr p"
    by (cases "protected_initialize H ?a1") (auto simp: protected_solve_def Let_def)
  let ?a2 = "update_attrs (\<lambda>s. s\<lparr>pop := p\<rparr>) ?a1"
  from assms t p obtain s0 where s0: "set_optimum H ?a2 = Inr s0"
    by (cases "set_optimum H ?a2") (auto simp: protected_solve_def Let_def)
  from assms t p s0 obtain s1 where s1: "each_iteration H s0 = Inr s1"
    by (cases "each_iteration H s0") (auto simp: protected_solve_def Let_def)
  from assms t p s0 s1 have l: "termination_loop H s1 = Some (Inr a')"
    by (auto simp: protected_solve_def Let_def finalize_def protected_finalize_def
        split: option.splits sum.splits)
  from termination_loop_calls[OF l] p s0 s1 show ?thesis by blast
qed

subsection \<open>The optimum of a population that is not empty\<close>

lemma all_le_sum_list:
  "length a = length b \<Longrightarrow> list_all (\<lambda>(x, y). x \<le> y) (zip a b)
     \<Longrightarrow> sum_list a \<le> (sum_list b :: real)"
  by (induction a b rule: list_induct2) auto

lemma dominates_sum_list:
  "length a = length b \<Longrightarrow> dominates a b \<Longrightarrow> sum_list a < sum_list b"
proof (induction a b rule: list_induct2)
  case Nil
  then show ?case by (simp add: dominates_def)
next
  case (Cons x xs y ys)
  from Cons.prems have le: "x \<le> y" and al: "list_all (\<lambda>(x, y). x \<le> y) (zip xs ys)"
    by (auto simp: dominates_def)
  show ?case
  proof (cases "x < y")
    case True
    with all_le_sum_list[OF Cons.hyps al] show ?thesis by simp
  next
    case False
    with Cons.prems al have "dominates xs ys" by (auto simp: dominates_def)
    with Cons.IH le show ?thesis by simp
  qed
qed

lemma non_dominated_row_exists:
  assumes "M \<noteq> []" and "\<forall>r\<in>set M. length r = m"
  shows "\<exists>i<length M. \<not> (\<exists>j<length M. dominates (M ! j) (M ! i))"
proof -
  let ?v = "map sum_list M"
  let ?i = "argmin_list ?v"
  have lt: "?i < length M" using argmin_list_less[of ?v] assms(1) by simp
  have "\<not> (\<exists>j<length M. dominates (M ! j) (M ! ?i))"
  proof
    assume "\<exists>j<length M. dominates (M ! j) (M ! ?i)"
    then obtain j where j: "j < length M" and d: "dominates (M ! j) (M ! ?i)" by blast
    from j lt assms(2) have "length (M ! j) = length (M ! ?i)" by simp
    from dominates_sum_list[OF this d] have "sum_list (M ! j) < sum_list (M ! ?i)" .
    moreover have "?v ! ?i \<le> ?v ! j" using argmin_list_le[of j ?v] j by simp
    ultimately show False using j lt by simp
  qed
  with lt show ?thesis by blast
qed

lemma nds_contract_front:
  assumes "nds_contract nds" and "M \<noteq> []" and "\<forall>r\<in>set M. length r = m"
  shows "nds M \<noteq> [] \<and> (\<forall>i\<in>set (nds M). i < length M)"
proof -
  from assms(1) have s: "set (nds M) = {i. i < length M \<and> \<not> (\<exists>j<length M. dominates (M ! j) (M ! i))}"
    unfolding nds_contract_def by (rule allE[where x = M]) (erule conjunct2)
  from non_dominated_row_exists[OF assms(2,3)] obtain i where
    "i < length M" "\<not> (\<exists>j<length M. dominates (M ! j) (M ! i))" by blast
  then have "i \<in> set (nds M)" unfolding s by simp
  then have "nds M \<noteq> []" by auto
  moreover have "\<forall>i\<in>set (nds M). i < length M" unfolding s by simp
  ultimately show ?thesis by simp
qed

lemma filter_optimum_least_infeasible:
  assumes "ps \<noteq> []" and "\<forall>a\<in>set ps. \<not> feasible a"
  shows "filter_optimum nds ps True = Inr (Pop [ps ! argmin_list (map CV ps)])"
proof -
  have c: "concat (get_CV ps) = map CV ps" by (simp add: get_CV_def concat_map_singleton)
  have e: "filter feasible ps = []" using assms(2) by (rule all_infeasible_filter)
  have lt: "argmin_list (map CV ps) < length ps" using argmin_list_less[of "map CV ps"] assms(1) by simp
  show ?thesis
    unfolding filter_optimum_def feasible_subset[OF assms(1)]
    using lt assms(1) by (simp add: mask_select_map e argmin_def c index_one_def)
qed

lemma filter_optimum_true_nonempty:
  assumes c: "nds_contract nds" and ne: "ps \<noteq> []"
      and wf: "\<forall>a\<in>set ps. length (F a) = m" and m: "1 \<le> m"
  shows "\<exists>q. filter_optimum nds ps True = Inr (Pop q) \<and> q \<noteq> []"
proof (cases "filter feasible ps = []")
  case True
  then have nf: "\<forall>a\<in>set ps. \<not> feasible a" by (simp add: filter_empty_conv)
  from filter_optimum_least_infeasible[OF ne nf] show ?thesis by simp
next
  case neP: False
  let ?P = "filter feasible ps"
  show ?thesis
  proof (cases "m = 1")
    case True
    with wf have one: "\<forall>a\<in>set ?P. length (F a) = 1" by simp
    from filter_optimum_feasible_single[OF neP one] show ?thesis by simp
  next
    case False
    with m have m1: "1 < m" by simp
    from neP have "hd ?P \<in> set ps" by (metis filter_is_subset hd_in_set subsetD)
    with wf m1 have hm: "1 < length (F (hd ?P))" by simp
    have "map F ?P \<noteq> []" "\<forall>r\<in>set (map F ?P). length r = m"
      using neP wf by auto
    from nds_contract_front[OF c this] have fr: "nds (map F ?P) \<noteq> []"
      and rng: "\<forall>i\<in>set (nds (map F ?P)). i < length ?P" by auto
    from filter_optimum_feasible_multi[of ps nds True] neP hm rng
    have "filter_optimum nds ps True = Inr (Pop (map (\<lambda>i. ?P ! i) (nds (map F ?P))))" by blast
    with fr show ?thesis by simp
  qed
qed

lemma filter_optimum_members:
  assumes "filter feasible ps \<noteq> []" and "filter_optimum nds ps li = Inr (Pop q)"
  shows "\<forall>x\<in>set q. feasible x"
proof -
  let ?P = "filter feasible ps"
  from assms(1) have ne: "ps \<noteq> []" by auto
  have P: "\<forall>i<length ?P. feasible (?P ! i)"
    using nth_mem[of _ ?P] by auto
  from assms(2) show ?thesis
    unfolding filter_optimum_def feasible_subset[OF ne]
    using assms(1) P
    by (auto simp: mask_select_map Let_def index_many_def index_one_def list_all_iff
        split: sum.splits if_splits pyval.splits)
qed

lemma filter_optimum_infeasible_result:
  assumes r: "filter_optimum nds ps True = Inr (Pop q)" and q: "q \<noteq> []"
      and nf: "\<forall>x\<in>set q. \<not> feasible x"
  shows "filter_optimum nds q True = Inr (Pop q)"
proof -
  have ne: "ps \<noteq> []"
  proof
    assume "ps = []"
    with r show False by (simp add: filter_optimum_def column0_def get_feasible_def)
  qed
  have e: "filter feasible ps = []"
  proof (rule ccontr)
    assume "filter feasible ps \<noteq> []"
    from filter_optimum_members[OF this r] nf q show False by (cases q) auto
  qed
  then have "\<forall>a\<in>set ps. \<not> feasible a" by (simp add: filter_empty_conv)
  from filter_optimum_least_infeasible[OF ne this, of nds] r
  obtain x where x: "q = [x]" by simp
  with nf have "\<not> feasible x" by simp
  then have "filter_optimum nds [x] True = Inr (Pop [x])"
    using filter_optimum_least_infeasible[of "[x]" nds] by simp
  with x show ?thesis by simp
qed

lemma any_feasible_Pop: "any_feasible (Pop q) = Inr (\<exists>x\<in>set q. feasible x)"
  by (auto simp: any_feasible_def get_feasible_def list_ex_iff)

lemma reported_optimum_cases:
  assumes "reported_optimum H a = Inr v"
  shows "\<exists>q. opt (attrs a) = Pop q
           \<and> (q = [] \<longrightarrow> v = PNone)
           \<and> (q \<noteq> [] \<and> (\<forall>x\<in>set q. \<not> feasible x) \<and> \<not> return_least_infeasible (attrs a)
                \<longrightarrow> v = PNone)
           \<and> (q \<noteq> [] \<and> (\<forall>x\<in>set q. \<not> feasible x) \<and> return_least_infeasible (attrs a)
                \<longrightarrow> filter_optimum (non_dominated_sorting H) q True = Inr v)
           \<and> ((\<exists>x\<in>set q. feasible x) \<longrightarrow> v = Pop q)"
proof -
  from assms obtain q where q: "opt (attrs a) = Pop q"
    by (cases "opt (attrs a)") (auto simp: reported_optimum_def len_def)
  from assms show ?thesis
    by (auto simp: q reported_optimum_def len_def any_feasible_Pop Let_def split: if_splits)
qed

lemma reported_columns_cases:
  assumes "reported_columns a v = Inr (Xv, Fv, CVv, Gv)"
  shows "(v = PNone \<longrightarrow> Xv = NoColumn \<and> Fv = NoColumn \<and> CVv = NoColumn \<and> Gv = NoColumn)
       \<and> (v \<noteq> PNone \<longrightarrow>
            (\<exists>q pr. opt (attrs a) = Pop q \<and> problem (attrs a) = Some pr
               \<and> (if n_obj pr = 1 \<and> length q = 1
                   then Xv = Row (X (q ! 0)) \<and> Fv = Row (F (q ! 0))
                      \<and> CVv = Row [CV (q ! 0)] \<and> Gv = Row (G (q ! 0))
                   else Xv = Rows (map X q) \<and> Fv = Rows (map F q)
                      \<and> CVv = Rows (map (\<lambda>x. [CV x]) q) \<and> Gv = Rows (map G q))))"
proof (cases "v = PNone")
  case True
  with assms show ?thesis by (simp add: reported_columns_def)
next
  case False
  with assms obtain q where q: "opt (attrs a) = Pop q"
    by (cases "opt (attrs a)") (auto simp: reported_columns_def)
  with assms False obtain pr where pr: "problem (attrs a) = Some pr"
    by (cases "problem (attrs a)") (auto simp: reported_columns_def Let_def)
  show ?thesis
  proof (cases "n_obj pr = 1 \<and> length q = 1")
    case True
    then obtain x where x: "q = [x]" by (cases q) auto
    with assms False q pr True show ?thesis
      by (simp add: reported_columns_def get_X_def get_F_def get_CV_def get_G_def row0_def)
  next
    case F2: False
    with assms False q pr show ?thesis
      by (auto simp: reported_columns_def get_X_def get_F_def get_CV_def get_G_def Let_def)
  qed
qed

lemma solve_parts:
  assumes "solve H t0 t1 a = Some (Inr (a', res))"
  shows "protected_solve H a = Some (Inr a')
       \<and> reported_optimum H a' = Inr (res_opt res)
       \<and> reported_columns a' (res_opt res) = Inr (res_X res, res_F res, res_CV res, res_G res)"
  using assms
  by (auto simp: solve_def split: option.splits sum.splits prod.splits)

lemma protected_solve_result:
  assumes "protected_solve H a = Some (Inr a')"
  shows "optimum_current H a'
       \<and> return_least_infeasible (attrs a') = return_least_infeasible (attrs a)
       \<and> problem (attrs a') = problem (attrs a)
       \<and> termination_criterion (attrs a') = termination_criterion (attrs a)"
proof -
  from protected_solve_run[OF assms] obtain p s0 s1 k where
    s0: "set_optimum H (update_attrs (\<lambda>s. s\<lparr>pop := p\<rparr>)
                             (update_attrs (\<lambda>s. s\<lparr>n_gen := Some 1\<rparr>) a)) = Inr s0"
    and s1: "each_iteration H s0 = Inr s1"
    and k: "next_calls H k s1 = Inr a'" by blast
  from generation_result[OF s0 s1]
  have g: "optimum_current H s1" "n_gen (attrs s1) = Some 1"
    "termination_criterion (attrs s1) = termination_criterion (attrs a)"
    "return_least_infeasible (attrs s1) = return_least_infeasible (attrs a)"
    "problem (attrs s1) = problem (attrs a)"
    by (simp_all add: algorithm_simps)
  from next_calls_result[OF k g(2) g(1)] g show ?thesis by simp
qed

lemma least_infeasible_index:
  assumes "ps \<noteq> []"
  shows "argmin_list (map CV ps) < length ps
       \<and> (\<forall>j<length ps. CV (ps ! argmin_list (map CV ps)) \<le> CV (ps ! j))
       \<and> (\<forall>j<argmin_list (map CV ps). CV (ps ! argmin_list (map CV ps)) < CV (ps ! j))"
proof -
  let ?v = "map CV ps"
  let ?i = "argmin_list ?v"
  have lt: "?i < length ps" using argmin_list_less[of ?v] assms by simp
  have le: "\<forall>j<length ps. CV (ps ! ?i) \<le> CV (ps ! j)"
  proof (intro allI impI)
    fix j assume j: "j < length ps"
    then have "?v ! ?i \<le> ?v ! j" using argmin_list_le[of j ?v] by simp
    with j lt show "CV (ps ! ?i) \<le> CV (ps ! j)" by simp
  qed
  have fst: "\<forall>j<?i. CV (ps ! ?i) < CV (ps ! j)"
  proof (intro allI impI)
    fix j assume j: "j < ?i"
    then have "?v ! ?i < ?v ! j" using argmin_list_first[of j ?v] by simp
    with j lt show "CV (ps ! ?i) < CV (ps ! j)" by simp
  qed
  from lt le fst show ?thesis by blast
qed

lemma reported_optimum_after_run:
  assumes oc: "optimum_current H a" and r: "reported_optimum H a = Inr v" and v: "v \<noteq> PNone"
  shows "opt (attrs a) = v"
proof -
  from reported_optimum_cases[OF r] obtain q where q: "opt (attrs a) = Pop q"
    and e: "q = [] \<longrightarrow> v = PNone"
    and n: "q \<noteq> [] \<and> (\<forall>x\<in>set q. \<not> feasible x) \<and> \<not> return_least_infeasible (attrs a)
                \<longrightarrow> v = PNone"
    and l: "q \<noteq> [] \<and> (\<forall>x\<in>set q. \<not> feasible x) \<and> return_least_infeasible (attrs a)
                \<longrightarrow> filter_optimum (non_dominated_sorting H) q True = Inr v"
    and f: "(\<exists>x\<in>set q. feasible x) \<longrightarrow> v = Pop q" by blast
  from e v have ne: "q \<noteq> []" by blast
  show ?thesis
  proof (cases "\<exists>x\<in>set q. feasible x")
    case True
    with f q show ?thesis by simp
  next
    case False
    then have nf: "\<forall>x\<in>set q. \<not> feasible x" by blast
    with n ne v have rl: "return_least_infeasible (attrs a)" by blast
    with l ne nf have fv: "filter_optimum (non_dominated_sorting H) q True = Inr v" by blast
    from oc q obtain p where "filter_optimum (non_dominated_sorting H) p True = Inr (Pop q)"
      by (auto simp: optimum_current_def split: option.splits)
    from filter_optimum_infeasible_result[OF this ne nf] fv q show ?thesis by simp
  qed
qed

subsection \<open>Example runs\<close>

lemmas run_defs = solve_def protected_solve_def termination_loop.simps next_generation_def
  set_optimum_def each_iteration_def call_callback_def deepcopy_def finalize_def
  protected_finalize_def reported_optimum_def reported_columns_def len_def any_feasible_def row0_def
  update_attrs_def set_history_def initialize_def init_def
  filter_optimum_def column0_def get_feasible_def mask_select_def sample_def
  get_F_def get_CV_def get_X_def get_G_def shape1_def non_dominated_front_def dominates_def index_many_def index_one_def
  argmin_def example_hooks_def example_algorithm_def Let_def

lemma example_run_feasible:
  "\<exists>a' res. solve (example_hooks [sample [3] 0 True, sample [5] 0 True]) 0 1
                (example_algorithm 1 False False) = Some (Inr (a', res))
      \<and> n_gen (attrs a') = Some 3
      \<and> res_opt res = Pop [\<lparr>X = [3], F = [1], G = [0], CV = 0, feasible = True\<rparr>]"
  by (simp add: run_defs)

lemma example_run_infeasible:
  "\<exists>a' res. solve (example_hooks [sample [3] (1/2) False, sample [5] (1/10) False]) 0 1
                (example_algorithm 1 least False) = Some (Inr (a', res))
      \<and> return_least_infeasible (attrs (example_algorithm 1 least False)) = least
      \<and> pop (attrs a') = Some [\<lparr>X = [3], F = [1], G = [1/2], CV = 1/2, feasible = False\<rparr>,
                               \<lparr>X = [5], F = [3], G = [1/10], CV = 1/10, feasible = False\<rparr>]"
  by (simp add: run_defs)

lemma example_run_two_objectives:
  "\<exists>a' res. solve (example_hooks [sample [1, 4] 0 True, sample [2, 5] 0 True, sample [4, 1] 0 True]) 0 1
                (example_algorithm 2 False False) = Some (Inr (a', res))
      \<and> res_opt res = Pop [\<lparr>X = [1, 4], F = [-1, 2], G = [0], CV = 0, feasible = True\<rparr>,
                            \<lparr>X = [4, 1], F = [2, -1], G = [0], CV = 0, feasible = True\<rparr>]"
  by (simp add: run_defs)

subsection \<open>The claims about the algorithm\<close>

text \<open>
  Claim C4. When \<^verbatim>\<open>solve\<close> returns the result \<open>res\<close> and leaves the algorithm
  \<open>self'\<close>, the optimum of \<open>self'\<close> is a population \<open>q\<close>, and: \<open>res.opt\<close> is
  \<^verbatim>\<open>None\<close> if \<open>q\<close> is empty (no optimum was computed), or if \<open>q\<close> is not empty,
  has no feasible individual, and \<^verbatim>\<open>return_least_infeasible\<close> was not requested; if it
  was requested, \<open>res.opt\<close> is what the optimum filter with
  \<^verbatim>\<open>least_infeasible=True\<close> answers on \<open>q\<close>, the first individual of \<open>q\<close> with
  the least \<^verbatim>\<open>CV\<close>, which is also what the filter answers on the whole population of
  \<open>self'\<close>; and whenever \<open>res.opt\<close> is \<^verbatim>\<open>None\<close>, so are \<open>res.X\<close>,
  \<open>res.F\<close>, \<open>res.CV\<close> and \<open>res.G\<close>.
\<close>

theorem result_optimum:
  assumes "solve H t0 t1 self = Some (Inr (self', res))"
  shows "\<exists>q. opt (attrs self') = Pop q
     \<and> (q = [] \<longrightarrow> res_opt res = PNone)
     \<and> (q \<noteq> [] \<and> (\<forall>a\<in>set q. \<not> feasible a) \<and> \<not> return_least_infeasible (attrs self)
          \<longrightarrow> res_opt res = PNone)
     \<and> (q \<noteq> [] \<and> (\<forall>a\<in>set q. \<not> feasible a) \<and> return_least_infeasible (attrs self)
          \<longrightarrow> filter_optimum (non_dominated_sorting H) q True = Inr (res_opt res)
            \<and> (\<exists>i<length q. res_opt res = Pop [q ! i]
                  \<and> (\<forall>j<length q. CV (q ! i) \<le> CV (q ! j))
                  \<and> (\<forall>j<i. CV (q ! i) < CV (q ! j))))
     \<and> ((\<exists>a\<in>set q. feasible a) \<longrightarrow> res_opt res = Pop q)
     \<and> (res_opt res = PNone \<longrightarrow>
           res_X res = NoColumn \<and> res_F res = NoColumn
         \<and> res_CV res = NoColumn \<and> res_G res = NoColumn)
     \<and> (q \<noteq> [] \<and> (\<forall>a\<in>set q. \<not> feasible a) \<and> return_least_infeasible (attrs self)
          \<longrightarrow> (\<exists>p. pop (attrs self') = Some p
                 \<and> filter_optimum (non_dominated_sorting H) p True = Inr (res_opt res)))"
proof -
  from solve_parts[OF assms] have ps: "protected_solve H self = Some (Inr self')"
    and ro: "reported_optimum H self' = Inr (res_opt res)"
    and rc: "reported_columns self' (res_opt res) = Inr (res_X res, res_F res, res_CV res, res_G res)"
    by simp_all
  from protected_solve_result[OF ps]
  have rl: "return_least_infeasible (attrs self') = return_least_infeasible (attrs self)"
    and oc: "optimum_current H self'" by simp_all
  from reported_optimum_cases[OF ro] obtain q where q: "opt (attrs self') = Pop q"
    and e: "q = [] \<longrightarrow> res_opt res = PNone"
    and n: "q \<noteq> [] \<and> (\<forall>x\<in>set q. \<not> feasible x) \<and> \<not> return_least_infeasible (attrs self')
                \<longrightarrow> res_opt res = PNone"
    and l: "q \<noteq> [] \<and> (\<forall>x\<in>set q. \<not> feasible x) \<and> return_least_infeasible (attrs self')
                \<longrightarrow> filter_optimum (non_dominated_sorting H) q True = Inr (res_opt res)"
    and f: "(\<exists>x\<in>set q. feasible x) \<longrightarrow> res_opt res = Pop q" by blast
  have l': "q \<noteq> [] \<and> (\<forall>a\<in>set q. \<not> feasible a) \<and> return_least_infeasible (attrs self)
          \<longrightarrow> filter_optimum (non_dominated_sorting H) q True = Inr (res_opt res)
            \<and> (\<exists>i<length q. res_opt res = Pop [q ! i]
                  \<and> (\<forall>j<length q. CV (q ! i) \<le> CV (q ! j))
                  \<and> (\<forall>j<i. CV (q ! i) < CV (q ! j)))"
  proof
    assume a: "q \<noteq> [] \<and> (\<forall>a\<in>set q. \<not> feasible a) \<and> return_least_infeasible (attrs self)"
    with l rl have fo: "filter_optimum (non_dominated_sorting H) q True = Inr (res_opt res)" by simp
    from a have "q \<noteq> []" "\<forall>a\<in>set q. \<not> feasible a" by simp_all
    from filter_optimum_least_infeasible[OF this, of "non_dominated_sorting H"] fo
    have "res_opt res = Pop [q ! argmin_list (map CV q)]" by simp
    with least_infeasible_index[OF \<open>q \<noteq> []\<close>] fo
    show "filter_optimum (non_dominated_sorting H) q True = Inr (res_opt res)
            \<and> (\<exists>i<length q. res_opt res = Pop [q ! i]
                  \<and> (\<forall>j<length q. CV (q ! i) \<le> CV (q ! j))
                  \<and> (\<forall>j<i. CV (q ! i) < CV (q ! j)))" by blast
  qed
  have c: "res_opt res = PNone \<longrightarrow>
           res_X res = NoColumn \<and> res_F res = NoColumn
         \<and> res_CV res = NoColumn \<and> res_G res = NoColumn"
    using reported_columns_cases[OF rc] by blast
  have w: "q \<noteq> [] \<and> (\<forall>a\<in>set q. \<not> feasible a) \<and> return_least_infeasible (attrs self)
          \<longrightarrow> (\<exists>p. pop (attrs self') = Some p
                 \<and> filter_optimum (non_dominated_sorting H) p True = Inr (res_opt res))"
  proof
    assume a: "q \<noteq> [] \<and> (\<forall>a\<in>set q. \<not> feasible a) \<and> return_least_infeasible (attrs self)"
    with l' have fo: "filter_optimum (non_dominated_sorting H) q True = Inr (res_opt res)" by simp
    from oc q obtain p where p: "pop (attrs self') = Some p"
      and fp: "filter_optimum (non_dominated_sorting H) p True = Inr (Pop q)"
      by (auto simp: optimum_current_def split: option.splits)
    from a have "q \<noteq> []" "\<forall>a\<in>set q. \<not> feasible a" by simp_all
    from filter_optimum_infeasible_result[OF fp this] fo have "res_opt res = Pop q" by simp
    with p fp show "\<exists>p. pop (attrs self') = Some p
                 \<and> filter_optimum (non_dominated_sorting H) p True = Inr (res_opt res)" by simp
  qed
  from q e n l' f c w rl show ?thesis by simp
qed

text \<open>
  Claim C4 at two runs on a population with no feasible individual, without and
  with \<^verbatim>\<open>return_least_infeasible\<close>.
\<close>

theorem result_optimum_witness:
  "(\<exists>a' res.
      solve (example_hooks [sample [3] (1/2) False, sample [5] (1/10) False]) 0 1
        (example_algorithm 1 False False) = Some (Inr (a', res))
    \<and> opt (attrs a') = Pop [\<lparr>X = [5], F = [3], G = [1/10], CV = 1/10, feasible = False\<rparr>]
    \<and> res_opt res = PNone \<and> res_X res = NoColumn \<and> res_F res = NoColumn
    \<and> res_CV res = NoColumn \<and> res_G res = NoColumn)
 \<and> (\<exists>a' res.
      solve (example_hooks [sample [3] (1/2) False, sample [5] (1/10) False]) 0 1
        (example_algorithm 1 True False) = Some (Inr (a', res))
    \<and> res_opt res = Pop [\<lparr>X = [5], F = [3], G = [1/10], CV = 1/10, feasible = False\<rparr>])"
proof -
  let ?H = "example_hooks [sample [3] (1/2) False, sample [5] (1/10) False]"
  let ?x = "\<lparr>X = [5], F = [3], G = [1/10], CV = 1/10, feasible = False\<rparr>"
  have one: "\<And>least a' res q.
      solve ?H 0 1 (example_algorithm 1 least False) = Some (Inr (a', res)) \<Longrightarrow>
      opt (attrs a') = Pop [?x] \<Longrightarrow>
      return_least_infeasible (attrs (example_algorithm 1 least False)) = least \<Longrightarrow>
      (if least then res_opt res = Pop [?x]
       else res_opt res = PNone \<and> res_X res = NoColumn \<and> res_F res = NoColumn
          \<and> res_CV res = NoColumn \<and> res_G res = NoColumn)"
  proof -
    fix least a' res
    assume r: "solve ?H 0 1 (example_algorithm 1 least False) = Some (Inr (a', res))"
      and o: "opt (attrs a') = Pop [?x]"
      and l: "return_least_infeasible (attrs (example_algorithm 1 least False)) = least"
    from result_optimum[OF r] o l
    show "if least then res_opt res = Pop [?x]
       else res_opt res = PNone \<and> res_X res = NoColumn \<and> res_F res = NoColumn
          \<and> res_CV res = NoColumn \<and> res_G res = NoColumn"
      by (auto simp: less_Suc_eq)
  qed
  have run: "\<And>least. \<exists>a' res. solve ?H 0 1 (example_algorithm 1 least False) = Some (Inr (a', res))
      \<and> return_least_infeasible (attrs (example_algorithm 1 least False)) = least
      \<and> opt (attrs a') = Pop [?x]"
    by (simp add: run_defs)
  from run[of False] one[of False] run[of True] one[of True] show ?thesis
    by (metis (full_types))
qed

text \<open>
  Claim C5, as amended: \<^verbatim>\<open>initialize\<close> resolves the termination criterion with this
  precedence: the value configured before (set at construction) is used first, else the
  argument passed to \<^verbatim>\<open>initialize\<close>, else the default termination of the algorithm.
\<close>

theorem initialize_termination_precedence:
  "termination_criterion
     (attrs (initialize self problem_arg termination_arg seed_arg randint pf_arg evaluator_arg
               new_evaluator verbose_arg save_history_arg)) =
   (case termination_criterion (attrs self) of
      Some configured \<Rightarrow> Some configured
    | None \<Rightarrow>
       (case termination_arg of
          Some explicit \<Rightarrow> Some explicit
        | None \<Rightarrow> default_termination (attrs self)))"
  by (simp add: initialize_def Let_def split: option.splits)

text \<open>
  Claim C5 as stated puts the argument of \<^verbatim>\<open>initialize\<close> first. An algorithm
  constructed with the criterion 1 and initialized with the argument 2 runs with the
  criterion 1 (line 141 assigns the argument only if none is configured).
\<close>

theorem initialize_keeps_configured_termination:
  "termination_criterion
     (attrs (initialize (init None None (Some (1 :: nat)) False :: (nat, unit, unit) algorithm)
               \<lparr>n_obj = 2\<rparr> (Some 2) None 0 None None () False False)) = Some 1"
  by (simp add: initialize_def init_def)

text \<open>
  Claim C6. When \<^verbatim>\<open>solve\<close> returns a result whose optimum is not \<^verbatim>\<open>None\<close>, that
  optimum is a population \<open>q\<close>, and \<open>res.X\<close>, \<open>res.F\<close>, \<open>res.CV\<close>, \<open>res.G\<close>
  are the bare rows of its only individual if the problem declares exactly one
  objective and \<open>q\<close> has exactly one individual; in every other case they are the
  matrices with one row per individual of \<open>q\<close>.
\<close>

theorem result_columns:
  assumes "solve H t0 t1 self = Some (Inr (self', res))" and "res_opt res \<noteq> PNone"
  shows "\<exists>q pr. res_opt res = Pop q \<and> problem (attrs self) = Some pr
     \<and> (n_obj pr = 1 \<and> length q = 1 \<longrightarrow>
            res_X res = Row (X (q ! 0)) \<and> res_F res = Row (F (q ! 0))
          \<and> res_CV res = Row [CV (q ! 0)] \<and> res_G res = Row (G (q ! 0)))
     \<and> (\<not> (n_obj pr = 1 \<and> length q = 1) \<longrightarrow>
            res_X res = Rows (map X q) \<and> res_F res = Rows (map F q)
          \<and> res_CV res = Rows (map (\<lambda>a. [CV a]) q) \<and> res_G res = Rows (map G q))"
proof -
  from solve_parts[OF assms(1)] have ps: "protected_solve H self = Some (Inr self')"
    and ro: "reported_optimum H self' = Inr (res_opt res)"
    and rc: "reported_columns self' (res_opt res) = Inr (res_X res, res_F res, res_CV res, res_G res)"
    by simp_all
  from protected_solve_result[OF ps]
  have oc: "optimum_current H self'" and pr: "problem (attrs self') = problem (attrs self)"
    by simp_all
  from reported_optimum_after_run[OF oc ro assms(2)] have o: "opt (attrs self') = res_opt res" .
  from reported_columns_cases[OF rc] assms(2) obtain q pr' where
    q: "opt (attrs self') = Pop q" and p: "problem (attrs self') = Some pr'"
    and i: "if n_obj pr' = 1 \<and> length q = 1
                   then res_X res = Row (X (q ! 0)) \<and> res_F res = Row (F (q ! 0))
                      \<and> res_CV res = Row [CV (q ! 0)] \<and> res_G res = Row (G (q ! 0))
                   else res_X res = Rows (map X q) \<and> res_F res = Rows (map F q)
                      \<and> res_CV res = Rows (map (\<lambda>x. [CV x]) q) \<and> res_G res = Rows (map G q)"
    by blast
  from q o have "res_opt res = Pop q" by simp
  moreover from p pr have "problem (attrs self) = Some pr'" by simp
  ultimately show ?thesis using i by (intro exI[of _ q] exI[of _ pr']) (simp split: if_splits)
qed

text \<open>
  Claim C6 at a run with one objective and one optimal individual, and at a run with
  two objectives and two optimal individuals.
\<close>

theorem result_columns_witness:
  "(\<exists>a' res.
      solve (example_hooks [sample [3] 0 True, sample [5] 0 True]) 0 1
        (example_algorithm 1 False False) = Some (Inr (a', res))
    \<and> res_opt res = Pop [\<lparr>X = [3], F = [1], G = [0], CV = 0, feasible = True\<rparr>]
    \<and> res_X res = Row [3] \<and> res_F res = Row [1] \<and> res_CV res = Row [0] \<and> res_G res = Row [0])
 \<and> (\<exists>a' res.
      solve (example_hooks [sample [1, 4] 0 True, sample [2, 5] 0 True, sample [4, 1] 0 True]) 0 1
        (example_algorithm 2 False False) = Some (Inr (a', res))
    \<and> res_X res = Rows [[1, 4], [4, 1]] \<and> res_F res = Rows [[-1, 2], [2, -1]]
    \<and> res_CV res = Rows [[0], [0]] \<and> res_G res = Rows [[0], [0]])"
proof -
  have p: "\<And>n. problem (attrs (example_algorithm n False False)) = Some \<lparr>n_obj = n\<rparr>"
    by (simp add: example_algorithm_def initialize_def init_def)
  from example_run_feasible obtain a' res where
    r: "solve (example_hooks [sample [3] 0 True, sample [5] 0 True]) 0 1
          (example_algorithm 1 False False) = Some (Inr (a', res))"
    and o: "res_opt res = Pop [\<lparr>X = [3], F = [1], G = [0], CV = 0, feasible = True\<rparr>]" by blast
  from result_columns[OF r] o p[of 1]
  have "res_X res = Row [3] \<and> res_F res = Row [1] \<and> res_CV res = Row [0] \<and> res_G res = Row [0]"
    by auto
  with r o have first: "\<exists>a' res.
      solve (example_hooks [sample [3] 0 True, sample [5] 0 True]) 0 1
        (example_algorithm 1 False False) = Some (Inr (a', res))
    \<and> res_opt res = Pop [\<lparr>X = [3], F = [1], G = [0], CV = 0, feasible = True\<rparr>]
    \<and> res_X res = Row [3] \<and> res_F res = Row [1] \<and> res_CV res = Row [0] \<and> res_G res = Row [0]"
    by blast
  from example_run_two_objectives obtain b' res2 where
    r2: "solve (example_hooks [sample [1, 4] 0 True, sample [2, 5] 0 True, sample [4, 1] 0 True]) 0 1
          (example_algorithm 2 False False) = Some (Inr (b', res2))"
    and o2: "res_opt res2 = Pop [\<lparr>X = [1, 4], F = [-1, 2], G = [0], CV = 0, feasible = True\<rparr>,
                            \<lparr>X = [4, 1], F = [2, -1], G = [0], CV = 0, feasible = True\<rparr>]" by blast
  from result_columns[OF r2] o2 p[of 2]
  have "res_X res2 = Rows [[1, 4], [4, 1]] \<and> res_F res2 = Rows [[-1, 2], [2, -1]]
    \<and> res_CV res2 = Rows [[0], [0]] \<and> res_G res2 = Rows [[0], [0]]"
    by auto
  with r2 have second: "\<exists>a' res.
      solve (example_hooks [sample [1, 4] 0 True, sample [2, 5] 0 True, sample [4, 1] 0 True]) 0 1
        (example_algorithm 2 False False) = Some (Inr (a', res))
    \<and> res_X res = Rows [[1, 4], [4, 1]] \<and> res_F res = Rows [[-1, 2], [2, -1]]
    \<and> res_CV res = Rows [[0], [0]] \<and> res_G res = Rows [[0], [0]]"
    by blast
  from first second show ?thesis by blast
qed



text \<open>
  Claim C8. When \<^verbatim>\<open>solve\<close> returns: the hook that creates the first population ran
  on a state with \<^verbatim>\<open>n_gen = 1\<close>, and \<^verbatim>\<open>n_gen\<close> is 1 after the first generation; the
  loop made some number \<open>k\<close> of calls of \<^verbatim>\<open>next\<close> (the criterion said to go on before
  each, and to stop after the last); and \<^verbatim>\<open>n_gen\<close> is \<open>1 + k\<close> at the end. Every call
  of \<^verbatim>\<open>next\<close> that returns has increased \<^verbatim>\<open>n_gen\<close> by exactly 1.
\<close>

theorem generation_counter:
  assumes "solve H t0 t1 self = Some (Inr (self', res))"
  shows "(\<exists>p s0 s1 k.
            protected_initialize H (update_attrs (\<lambda>s. s\<lparr>n_gen := Some 1\<rparr>) self) = Inr p
          \<and> set_optimum H (update_attrs (\<lambda>s. s\<lparr>pop := p\<rparr>)
                             (update_attrs (\<lambda>s. s\<lparr>n_gen := Some 1\<rparr>) self)) = Inr s0
          \<and> each_iteration H s0 = Inr s1
          \<and> n_gen (attrs s1) = Some 1
          \<and> next_calls H k s1 = Inr self'
          \<and> \<not> continues H self'
          \<and> (\<forall>i<k. \<forall>b. next_calls H i s1 = Inr b \<longrightarrow> continues H b)
          \<and> n_gen (attrs self') = Some (1 + int k))
       \<and> (\<forall>a a'. next_generation H a = Inr a' \<longrightarrow>
              (\<exists>n. n_gen (attrs a) = Some n \<and> n_gen (attrs a') = Some (n + 1)))"
proof -
  from solve_parts[OF assms] have ps: "protected_solve H self = Some (Inr self')" by simp
  from protected_solve_run[OF ps] obtain p s0 s1 k where
    p: "protected_initialize H (update_attrs (\<lambda>s. s\<lparr>n_gen := Some 1\<rparr>) self) = Inr p"
    and s0: "set_optimum H (update_attrs (\<lambda>s. s\<lparr>pop := p\<rparr>)
                             (update_attrs (\<lambda>s. s\<lparr>n_gen := Some 1\<rparr>) self)) = Inr s0"
    and s1: "each_iteration H s0 = Inr s1"
    and k: "next_calls H k s1 = Inr self'"
    and stop: "\<not> continues H self'"
    and cont: "\<forall>i<k. \<forall>b. next_calls H i s1 = Inr b \<longrightarrow> continues H b" by blast
  from generation_result[OF s0 s1]
  have g: "optimum_current H s1" "n_gen (attrs s1) = Some 1"
    by (simp_all add: algorithm_simps)
  from next_calls_result[OF k g(2) g(1)] have n: "n_gen (attrs self') = Some (1 + int k)" by simp
  have each: "\<forall>a a'. next_generation H a = Inr a' \<longrightarrow>
              (\<exists>n. n_gen (attrs a) = Some n \<and> n_gen (attrs a') = Some (n + 1))"
    using next_generation_result by blast
  from p s0 s1 g(2) k stop cont n each show ?thesis by blast
qed

text \<open>Claim C8 at the example algorithm: two calls of \<^verbatim>\<open>next\<close>, and \<^verbatim>\<open>n_gen = 3\<close>.\<close>

theorem generation_counter_witness:
  "\<exists>a' res s1 k.
      solve (example_hooks [sample [3] 0 True, sample [5] 0 True]) 0 1
        (example_algorithm 1 False False) = Some (Inr (a', res))
    \<and> n_gen (attrs s1) = Some 1
    \<and> next_calls (example_hooks [sample [3] 0 True, sample [5] 0 True]) k s1 = Inr a'
    \<and> k = 2 \<and> n_gen (attrs a') = Some 3"
proof -
  let ?H = "example_hooks [sample [3] 0 True, sample [5] 0 True]"
  from example_run_feasible obtain a' res where
    r: "solve ?H 0 1 (example_algorithm 1 False False) = Some (Inr (a', res))"
    and n: "n_gen (attrs a') = Some 3" by blast
  from generation_counter[OF r] obtain s1 k where
    "n_gen (attrs s1) = Some 1" "next_calls ?H k s1 = Inr a'"
    "n_gen (attrs a') = Some (1 + int k)" by blast
  with r n show ?thesis by auto
qed

text \<open>
  Claim C10. Let the sorting service meet its contract, and let \<open>p\<close> be a population
  that is not empty, with \<open>m \<ge> 1\<close> objectives. Then the optimum filter with
  \<^verbatim>\<open>least_infeasible=True\<close> answers on \<open>p\<close> with a population \<open>q\<close> that is not
  empty (the first individual with the least \<^verbatim>\<open>CV\<close> when \<open>p\<close> has no feasible
  individual), and, whatever \<^verbatim>\<open>return_least_infeasible\<close> is: \<^verbatim>\<open>_set_optimum\<close> on a
  state with the population \<open>p\<close> sets \<^verbatim>\<open>opt\<close> to \<open>q\<close>; after a call of \<^verbatim>\<open>next\<close>
  that leaves the population \<open>p\<close>, \<^verbatim>\<open>opt\<close> is \<open>q\<close>; and after \<^verbatim>\<open>solve\<close> that
  leaves the population \<open>p\<close>, \<^verbatim>\<open>opt\<close> of the algorithm is \<open>q\<close>, while the optimum
  of the result, when \<open>p\<close> has no feasible individual, is \<open>q\<close> or \<^verbatim>\<open>None\<close>
  according to \<^verbatim>\<open>return_least_infeasible\<close>.
\<close>

theorem optimum_during_run:
  assumes c: "nds_contract (non_dominated_sorting H)"
      and ne: "p \<noteq> []" and wf: "\<forall>a\<in>set p. length (F a) = m" and m: "1 \<le> m"
  shows "\<exists>q. q \<noteq> [] \<and> filter_optimum (non_dominated_sorting H) p True = Inr (Pop q)
      \<and> ((\<forall>a\<in>set p. \<not> feasible a) \<longrightarrow>
            (\<exists>i<length p. q = [p ! i] \<and> (\<forall>j<length p. CV (p ! i) \<le> CV (p ! j))
               \<and> (\<forall>j<i. CV (p ! i) < CV (p ! j))))
      \<and> (\<forall>a. pop (attrs a) = Some p \<longrightarrow>
            set_optimum H a = Inr (update_attrs (\<lambda>s. s\<lparr>opt := Pop q\<rparr>) a))
      \<and> (\<forall>a a'. next_generation H a = Inr a' \<and> pop (attrs a') = Some p \<longrightarrow>
            opt (attrs a') = Pop q)
      \<and> (\<forall>self self' res t0 t1.
            solve H t0 t1 self = Some (Inr (self', res)) \<and> pop (attrs self') = Some p \<longrightarrow>
              opt (attrs self') = Pop q
            \<and> ((\<forall>a\<in>set p. \<not> feasible a) \<longrightarrow>
                  res_opt res = (if return_least_infeasible (attrs self) then Pop q else PNone)))"
proof -
  let ?nds = "non_dominated_sorting H"
  from filter_optimum_true_nonempty[OF c ne wf m] obtain q where
    q: "filter_optimum ?nds p True = Inr (Pop q)" and qne: "q \<noteq> []" by blast
  have li: "(\<forall>a\<in>set p. \<not> feasible a) \<longrightarrow>
            (\<exists>i<length p. q = [p ! i] \<and> (\<forall>j<length p. CV (p ! i) \<le> CV (p ! j))
               \<and> (\<forall>j<i. CV (p ! i) < CV (p ! j)))"
  proof
    assume nf: "\<forall>a\<in>set p. \<not> feasible a"
    from filter_optimum_least_infeasible[OF ne nf, of ?nds] q
    have "q = [p ! argmin_list (map CV p)]" by simp
    with least_infeasible_index[OF ne]
    show "\<exists>i<length p. q = [p ! i] \<and> (\<forall>j<length p. CV (p ! i) \<le> CV (p ! j))
               \<and> (\<forall>j<i. CV (p ! i) < CV (p ! j))" by blast
  qed
  have so: "\<forall>a. pop (attrs a) = Some p \<longrightarrow>
            set_optimum H a = Inr (update_attrs (\<lambda>s. s\<lparr>opt := Pop q\<rparr>) a)"
    by (simp add: set_optimum_def q)
  have cur: "\<And>a. optimum_current H a \<Longrightarrow> pop (attrs a) = Some p \<Longrightarrow> opt (attrs a) = Pop q"
    using q by (simp add: optimum_current_def)
  have ng: "\<forall>a a'. next_generation H a = Inr a' \<and> pop (attrs a') = Some p \<longrightarrow>
            opt (attrs a') = Pop q"
    using next_generation_result cur by blast
  have sv: "\<forall>self self' res t0 t1.
            solve H t0 t1 self = Some (Inr (self', res)) \<and> pop (attrs self') = Some p \<longrightarrow>
              opt (attrs self') = Pop q
            \<and> ((\<forall>a\<in>set p. \<not> feasible a) \<longrightarrow>
                  res_opt res = (if return_least_infeasible (attrs self) then Pop q else PNone))"
  proof (intro allI impI)
    fix self self' :: "('a, 'b, 'c) algorithm" and res :: "('a, 'b, 'c) result" and t0 t1
    assume a: "solve H t0 t1 self = Some (Inr (self', res)) \<and> pop (attrs self') = Some p"
    from solve_parts[of H t0 t1 self self' res] a
    have ps: "protected_solve H self = Some (Inr self')"
      and ro: "reported_optimum H self' = Inr (res_opt res)" by simp_all
    from protected_solve_result[OF ps]
    have oc: "optimum_current H self'"
      and rl: "return_least_infeasible (attrs self') = return_least_infeasible (attrs self)"
      by simp_all
    from cur[OF oc] a have o: "opt (attrs self') = Pop q" by simp
    have "(\<forall>a\<in>set p. \<not> feasible a) \<longrightarrow>
                  res_opt res = (if return_least_infeasible (attrs self) then Pop q else PNone)"
    proof
      assume nf: "\<forall>a\<in>set p. \<not> feasible a"
      with li obtain i where i: "i < length p" "q = [p ! i]" by blast
      then have qnf: "\<forall>x\<in>set q. \<not> feasible x" using nf by simp
      from reported_optimum_cases[OF ro] o
      have n: "q \<noteq> [] \<and> (\<forall>x\<in>set q. \<not> feasible x) \<and> \<not> return_least_infeasible (attrs self')
                \<longrightarrow> res_opt res = PNone"
        and l: "q \<noteq> [] \<and> (\<forall>x\<in>set q. \<not> feasible x) \<and> return_least_infeasible (attrs self')
                \<longrightarrow> filter_optimum ?nds q True = Inr (res_opt res)" by simp_all
      show "res_opt res = (if return_least_infeasible (attrs self) then Pop q else PNone)"
      proof (cases "return_least_infeasible (attrs self)")
        case True
        with l rl qne qnf have "filter_optimum ?nds q True = Inr (res_opt res)" by simp
        with filter_optimum_infeasible_result[OF q qne qnf] True show ?thesis by simp
      next
        case False
        with n rl qne qnf show ?thesis by simp
      qed
    qed
    with o show "opt (attrs self') = Pop q
            \<and> ((\<forall>a\<in>set p. \<not> feasible a) \<longrightarrow>
                  res_opt res = (if return_least_infeasible (attrs self) then Pop q else PNone))"
      by simp
  qed
  from qne q li so ng sv show ?thesis by blast
qed

text \<open>
  Claim C10 at a run without \<^verbatim>\<open>return_least_infeasible\<close> on a population with no
  feasible individual: the algorithm holds the least infeasible individual as its
  optimum, and the result reports \<^verbatim>\<open>None\<close>.
\<close>

theorem optimum_during_run_witness:
  "\<exists>a' res.
      solve (example_hooks [sample [3] (1/2) False, sample [5] (1/10) False]) 0 1
        (example_algorithm 1 False False) = Some (Inr (a', res))
    \<and> pop (attrs a') = Some [\<lparr>X = [3], F = [1], G = [1/2], CV = 1/2, feasible = False\<rparr>,
                               \<lparr>X = [5], F = [3], G = [1/10], CV = 1/10, feasible = False\<rparr>]
    \<and> opt (attrs a') = Pop [\<lparr>X = [5], F = [3], G = [1/10], CV = 1/10, feasible = False\<rparr>]
    \<and> res_opt res = PNone"
proof -
  let ?H = "example_hooks [sample [3] (1/2) False, sample [5] (1/10) False]"
  let ?p = "[\<lparr>X = [3], F = [1], G = [1/2], CV = 1/2, feasible = False\<rparr>,
             \<lparr>X = [5], F = [3], G = [1/10], CV = 1/10, feasible = False\<rparr>]"
  have c: "nds_contract (non_dominated_sorting ?H)"
    by (simp add: example_hooks_def non_dominated_front_contract)
  from example_run_infeasible[of False] obtain a' res where
    r: "solve ?H 0 1 (example_algorithm 1 False False) = Some (Inr (a', res))"
    and l: "return_least_infeasible (attrs (example_algorithm 1 False False)) = False"
    and p: "pop (attrs a') = Some ?p" by blast
  from optimum_during_run[OF c, of ?p 1] obtain q where
    q: "\<exists>i<length ?p. q = [?p ! i] \<and> (\<forall>j<length ?p. CV (?p ! i) \<le> CV (?p ! j))"
    and s: "\<forall>self self' res t0 t1.
            solve ?H t0 t1 self = Some (Inr (self', res)) \<and> pop (attrs self') = Some ?p \<longrightarrow>
              opt (attrs self') = Pop q
            \<and> ((\<forall>a\<in>set ?p. \<not> feasible a) \<longrightarrow>
                  res_opt res = (if return_least_infeasible (attrs self) then Pop q else PNone))"
    by auto
  from q have "q = [\<lparr>X = [5], F = [3], G = [1/10], CV = 1/10, feasible = False\<rparr>]"
    by (auto simp: less_Suc_eq)
  moreover from s have "solve ?H 0 1 (example_algorithm 1 False False) = Some (Inr (a', res))
        \<and> pop (attrs a') = Some ?p \<longrightarrow>
          opt (attrs a') = Pop q
        \<and> ((\<forall>a\<in>set ?p. \<not> feasible a) \<longrightarrow>
              res_opt res = (if return_least_infeasible (attrs (example_algorithm 1 False False))
                             then Pop q else PNone))" by blast
  with r p l have "opt (attrs a') = Pop q \<and> res_opt res = PNone" by simp
  ultimately show ?thesis using r p by blast
qed

section \<open>Properties of the snapshot\<close>

lemma deref_append: "deref st r = Some ob \<Longrightarrow> deref (st @ ext) r = Some ob"
  by (auto simp: deref_def nth_append split: if_splits)

lemma read_individuals_Nil: "read_individuals st [] = Some []"
  by (simp add: read_individuals_def)

lemma read_individuals_Cons:
  "read_individuals st (r # rs) =
     (case deref st r of
        Some (IndividualObject i) \<Rightarrow> map_option (\<lambda>v. i # v) (read_individuals st rs)
      | _ \<Rightarrow> None)"
  by (auto simp: read_individuals_def split: option.splits object.splits)

lemma read_individuals_append:
  "read_individuals st rs = Some v \<Longrightarrow> read_individuals (st @ ext) rs = Some v"
proof (induction rs arbitrary: v)
  case Nil
  then show ?case by (simp add: read_individuals_Nil)
next
  case (Cons r rs)
  from Cons.prems obtain i w where i: "deref st r = Some (IndividualObject i)"
    and w: "read_individuals st rs = Some w" and v: "v = i # w"
    by (auto simp: read_individuals_Cons split: option.splits object.splits)
  from deref_append[OF i] Cons.IH[OF w] v show ?case
    by (simp add: read_individuals_Cons)
qed

lemma read_individuals_valid:
  "read_individuals st rs = Some v \<Longrightarrow> \<forall>x\<in>set rs. x < length st"
proof (induction rs arbitrary: v)
  case Nil
  then show ?case by simp
next
  case (Cons r rs)
  then show ?case
    by (auto simp: read_individuals_Cons deref_def split: option.splits object.splits if_splits)
qed

lemma read_population_append:
  "read_population st r = Some v \<Longrightarrow> read_population (st @ ext) r = Some v"
proof -
  assume a: "read_population st r = Some v"
  then obtain rs where rs: "deref st r = Some (PopulationObject rs)"
    and v: "read_individuals st rs = Some v"
    by (auto simp: read_population_def split: option.splits object.splits)
  from deref_append[OF rs] read_individuals_append[OF v] show ?thesis
    by (simp add: read_population_def)
qed

lemma fresh_population_append:
  "fresh_population n0 st r \<Longrightarrow> fresh_population n0 (st @ ext) r"
  by (auto simp: fresh_population_def nth_append list_all_iff split: object.splits)

lemma copy_of_append:
  assumes "copy_of n0 st r r'" and "r < length st" and "r' < length st"
  shows "copy_of n0 (st @ ext) r r'"
proof (cases "st ! r")
  case (IndividualObject i)
  with assms show ?thesis by (simp add: copy_of_def nth_append)
next
  case (PopulationObject rs)
  with assms(1) have f: "fresh_population n0 st r'"
    and e: "read_population st r' = read_population st r"
    and n: "read_population st r \<noteq> None" by (simp_all add: copy_of_def)
  from n obtain v where v: "read_population st r = Some v" by blast
  with e have v': "read_population st r' = Some v" by simp
  from fresh_population_append[OF f] read_population_append[OF v] read_population_append[OF v']
    PopulationObject assms(2)
  show ?thesis by (simp add: copy_of_def nth_append)
next
  case (ListObject x)
  with assms show ?thesis by (simp add: copy_of_def nth_append)
next
  case (AlgorithmObject x)
  with assms show ?thesis by (simp add: copy_of_def nth_append)
qed

lemma memo_ok_append:
  assumes "memo_ok n0 st memo"
  shows "memo_ok n0 (st @ ext) memo"
proof -
  from assms have n: "n0 \<le> length st"
    and a: "\<forall>(r, r')\<in>set memo. r < n0 \<and> n0 \<le> r' \<and> r' < length st \<and> copy_of n0 st r r'"
    by (simp_all add: memo_ok_def list_all_iff)
  have "\<forall>(r, r')\<in>set memo. r < n0 \<and> n0 \<le> r' \<and> r' < length (st @ ext)
           \<and> copy_of n0 (st @ ext) r r'"
  proof (clarify)
    fix r r' assume "(r, r') \<in> set memo"
    with a have b: "r < n0" "n0 \<le> r'" "r' < length st" "copy_of n0 st r r'" by auto
    from copy_of_append[OF b(4)] b n
    show "r < n0 \<and> n0 \<le> r' \<and> r' < length (st @ ext) \<and> copy_of n0 (st @ ext) r r'" by simp
  qed
  with n show ?thesis by (simp add: memo_ok_def list_all_iff)
qed

lemma memo_ok_lookup:
  assumes "memo_ok n0 st memo" and "map_of memo r = Some r'"
  shows "r < n0 \<and> n0 \<le> r' \<and> r' < length st \<and> copy_of n0 st r r'"
proof -
  from assms(2) have "(r, r') \<in> set memo" by (rule map_of_SomeD)
  with assms(1) show ?thesis by (auto simp: memo_ok_def list_all_iff)
qed

lemma copy_individual_spec:
  assumes m: "memo_ok n0 st memo" and r: "r < n0"
      and i: "deref st r = Some (IndividualObject i)"
  shows "\<exists>r' memo' ext. copy_individual memo st r = Inr (r', memo', st @ ext)
           \<and> memo_ok n0 (st @ ext) memo' \<and> n0 \<le> r' \<and> r' < length (st @ ext)
           \<and> deref (st @ ext) r' = Some (IndividualObject i)"
proof (cases "map_of memo r")
  case (Some r')
  from memo_ok_lookup[OF m Some] i
  have "n0 \<le> r'" "r' < length st" "st ! r' = IndividualObject i"
    by (auto simp: copy_of_def deref_def split: if_splits)
  then have "copy_individual memo st r = Inr (r', memo, st @ [])
           \<and> memo_ok n0 (st @ []) memo \<and> n0 \<le> r' \<and> r' < length (st @ [])
           \<and> deref (st @ []) r' = Some (IndividualObject i)"
    using Some m by (simp add: copy_individual_def deref_def)
  then show ?thesis by blast
next
  case None
  let ?ext = "[IndividualObject i]"
  let ?memo = "(r, length st) # memo"
  from m have n: "n0 \<le> length st" by (simp add: memo_ok_def)
  from i have ri: "r < length st" "st ! r = IndividualObject i"
    by (auto simp: deref_def split: if_splits)
  have c: "copy_of n0 (st @ ?ext) r (length st)"
    using ri by (simp add: copy_of_def nth_append)
  from memo_ok_append[OF m, of ?ext] have "memo_ok n0 (st @ ?ext) memo" .
  with c r n have mo: "memo_ok n0 (st @ ?ext) ?memo" by (simp add: memo_ok_def)
  have "copy_individual memo st r = Inr (length st, ?memo, st @ ?ext)"
    using None i by (simp add: copy_individual_def)
  moreover have "deref (st @ ?ext) (length st) = Some (IndividualObject i)"
    by (simp add: deref_def)
  ultimately show ?thesis using mo n by (intro exI[of _ "length st"] exI[of _ ?memo] exI[of _ ?ext]) simp
qed

lemma copy_individuals_spec:
  assumes "memo_ok n0 st memo" and "\<forall>r\<in>set rs. r < n0" and "read_individuals st rs = Some v"
  shows "\<exists>rs' memo' ext. copy_individuals memo st rs = Inr (rs', memo', st @ ext)
           \<and> memo_ok n0 (st @ ext) memo'
           \<and> list_all (\<lambda>x. n0 \<le> x \<and> x < length (st @ ext)) rs'
           \<and> read_individuals (st @ ext) rs' = Some v"
  using assms
proof (induction rs arbitrary: memo st v)
  case Nil
  then have "copy_individuals memo st [] = Inr ([], memo, st @ [])
           \<and> memo_ok n0 (st @ []) memo
           \<and> list_all (\<lambda>x. n0 \<le> x \<and> x < length (st @ [])) []
           \<and> read_individuals (st @ []) [] = Some v"
    by (simp add: read_individuals_Nil)
  then show ?case by blast
next
  case (Cons r rs)
  from Cons.prems(3) obtain i w where i: "deref st r = Some (IndividualObject i)"
    and w: "read_individuals st rs = Some w" and v: "v = i # w"
    by (auto simp: read_individuals_Cons split: option.splits object.splits)
  from Cons.prems(2) have r: "r < n0" and rs: "\<forall>r\<in>set rs. r < n0" by simp_all
  from copy_individual_spec[OF Cons.prems(1) r i] obtain r' memo1 ext1 where
    c1: "copy_individual memo st r = Inr (r', memo1, st @ ext1)"
    and m1: "memo_ok n0 (st @ ext1) memo1" and f1: "n0 \<le> r'" "r' < length (st @ ext1)"
    and d1: "deref (st @ ext1) r' = Some (IndividualObject i)" by blast
  from read_individuals_append[OF w] have w1: "read_individuals (st @ ext1) rs = Some w" .
  from Cons.IH[OF m1 rs w1] obtain rs' memo2 ext2 where
    c2: "copy_individuals memo1 (st @ ext1) rs = Inr (rs', memo2, (st @ ext1) @ ext2)"
    and m2: "memo_ok n0 ((st @ ext1) @ ext2) memo2"
    and f2: "list_all (\<lambda>x. n0 \<le> x \<and> x < length ((st @ ext1) @ ext2)) rs'"
    and r2: "read_individuals ((st @ ext1) @ ext2) rs' = Some w" by blast
  from deref_append[OF d1] have d2: "deref ((st @ ext1) @ ext2) r' = Some (IndividualObject i)" .
  have "copy_individuals memo st (r # rs) = Inr (r' # rs', memo2, st @ (ext1 @ ext2))"
    using c1 c2 by simp
  moreover have "memo_ok n0 (st @ (ext1 @ ext2)) memo2" using m2 by simp
  moreover have "list_all (\<lambda>x. n0 \<le> x \<and> x < length (st @ (ext1 @ ext2))) (r' # rs')"
    using f1 f2 by simp
  moreover have "read_individuals (st @ (ext1 @ ext2)) (r' # rs') = Some v"
    using d2 r2 v by (simp add: read_individuals_Cons)
  ultimately show ?case by blast
qed

lemma copy_population_spec:
  assumes m: "memo_ok n0 st memo" and r: "r < n0"
      and d: "deref st r = Some (PopulationObject rs)"
      and b: "\<forall>x\<in>set rs. x < n0" and v: "read_individuals st rs = Some v"
  shows "\<exists>r' memo' ext. copy_population memo st r = Inr (r', memo', st @ ext)
           \<and> memo_ok n0 (st @ ext) memo' \<and> fresh_population n0 (st @ ext) r'
           \<and> read_population (st @ ext) r' = Some v"
proof (cases "map_of memo r")
  case (Some r')
  from d have pr: "st ! r = PopulationObject rs" "r < length st"
    by (auto simp: deref_def split: if_splits)
  from d v have rv: "read_population st r = Some v" by (simp add: read_population_def)
  from memo_ok_lookup[OF m Some] pr rv
  have "fresh_population n0 st r'" "read_population st r' = Some v"
    by (simp_all add: copy_of_def)
  then have "copy_population memo st r = Inr (r', memo, st @ [])
           \<and> memo_ok n0 (st @ []) memo \<and> fresh_population n0 (st @ []) r'
           \<and> read_population (st @ []) r' = Some v"
    using Some m by (simp add: copy_population_def)
  then show ?thesis by blast
next
  case None
  from copy_individuals_spec[OF m b v] obtain rs' memo1 ext1 where
    c: "copy_individuals memo st rs = Inr (rs', memo1, st @ ext1)"
    and m1: "memo_ok n0 (st @ ext1) memo1"
    and f: "list_all (\<lambda>x. n0 \<le> x \<and> x < length (st @ ext1)) rs'"
    and r1: "read_individuals (st @ ext1) rs' = Some v" by blast
  let ?st1 = "st @ ext1"
  let ?new = "length ?st1"
  let ?st2 = "?st1 @ [PopulationObject rs']"
  let ?memo = "(r, ?new) # memo1"
  from m have n: "n0 \<le> length st" by (simp add: memo_ok_def)
  from d have pr: "st ! r = PopulationObject rs" "r < length st"
    by (auto simp: deref_def split: if_splits)
  have fp: "fresh_population n0 ?st2 ?new"
    using f n by (auto simp: fresh_population_def list_all_iff)
  have rn: "read_population ?st2 ?new = Some v"
    using read_individuals_append[OF r1, of "[PopulationObject rs']"]
    by (simp add: read_population_def deref_def)
  from d v have "read_population st r = Some v" by (simp add: read_population_def)
  from read_population_append[OF this, of "ext1 @ [PopulationObject rs']"]
  have ro: "read_population ?st2 r = Some v" by simp
  have "?st2 ! r = PopulationObject rs" using pr by (simp add: nth_append)
  with fp rn ro have co: "copy_of n0 ?st2 r ?new" by (simp add: copy_of_def)
  from memo_ok_append[OF m1, of "[PopulationObject rs']"] co r n
  have mo: "memo_ok n0 ?st2 ?memo" by (simp add: memo_ok_def)
  have "copy_population memo st r = Inr (?new, ?memo, st @ (ext1 @ [PopulationObject rs']))"
    using None d c by (simp add: copy_population_def)
  moreover have "memo_ok n0 (st @ (ext1 @ [PopulationObject rs'])) ?memo" using mo by simp
  moreover have "fresh_population n0 (st @ (ext1 @ [PopulationObject rs'])) ?new"
    using fp by simp
  moreover have "read_population (st @ (ext1 @ [PopulationObject rs'])) ?new = Some v"
    using rn by simp
  ultimately show ?thesis by blast
qed

lemma read_population_within:
  assumes "read_population st r = Some v" and "length st = n0"
  shows "\<exists>rs. r < n0 \<and> deref st r = Some (PopulationObject rs) \<and> (\<forall>x\<in>set rs. x < n0)
           \<and> read_individuals st rs = Some v"
proof -
  from assms(1) obtain rs where rs: "deref st r = Some (PopulationObject rs)"
    and v: "read_individuals st rs = Some v"
    by (auto simp: read_population_def split: option.splits object.splits)
  from rs assms(2) have "r < n0" by (auto simp: deref_def split: if_splits)
  with rs v read_individuals_valid[OF v] assms(2) show ?thesis by auto
qed

lemma copy_attribute_spec:
  assumes m: "memo_ok n0 st memo" and p: "read_attribute st a = Some p"
      and w: "\<forall>r rs. a = Some r \<and> deref st r = Some (PopulationObject rs)
                \<longrightarrow> r < n0 \<and> (\<forall>x\<in>set rs. x < n0)"
  shows "\<exists>a' memo' ext. copy_attribute memo st a = Inr (a', memo', st @ ext)
           \<and> memo_ok n0 (st @ ext) memo' \<and> fresh_attribute n0 (st @ ext) a'
           \<and> read_attribute (st @ ext) a' = Some p"
proof (cases a)
  case None
  with p m have "copy_attribute memo st a = Inr (None, memo, st @ [])
           \<and> memo_ok n0 (st @ []) memo \<and> fresh_attribute n0 (st @ []) None
           \<and> read_attribute (st @ []) None = Some p"
    by (simp add: copy_attribute_def fresh_attribute_def read_attribute_def)
  then show ?thesis by blast
next
  case (Some r)
  with p obtain v where v: "read_population st r = Some v" and pv: "p = Some v"
    by (auto simp: read_attribute_def)
  from v obtain rs where rs: "deref st r = Some (PopulationObject rs)"
    and vi: "read_individuals st rs = Some v"
    by (auto simp: read_population_def split: option.splits object.splits)
  from w Some rs have r: "r < n0" and b: "\<forall>x\<in>set rs. x < n0" by auto
  from copy_population_spec[OF m r rs b vi] obtain r' memo' ext where
    c: "copy_population memo st r = Inr (r', memo', st @ ext)"
    and m': "memo_ok n0 (st @ ext) memo'" and f: "fresh_population n0 (st @ ext) r'"
    and rr: "read_population (st @ ext) r' = Some v" by blast
  have "copy_attribute memo st a = Inr (Some r', memo', st @ ext)"
    using Some c by (simp add: copy_attribute_def)
  moreover have "fresh_attribute n0 (st @ ext) (Some r')" using f by (simp add: fresh_attribute_def)
  moreover have "read_attribute (st @ ext) (Some r') = Some p"
    using rr pv by (simp add: read_attribute_def)
  ultimately show ?thesis using m' by blast
qed

lemma read_attribute_within:
  assumes "read_attribute st a = Some p" and "length st = n0"
  shows "\<forall>r rs. a = Some r \<and> deref (st @ ext) r = Some (PopulationObject rs)
                \<longrightarrow> r < n0 \<and> (\<forall>x\<in>set rs. x < n0)"
proof (intro allI impI)
  fix r rs assume a: "a = Some r \<and> deref (st @ ext) r = Some (PopulationObject rs)"
  with assms(1) obtain v where v: "read_population st r = Some v"
    by (auto simp: read_attribute_def)
  from read_population_within[OF v assms(2)] obtain rs' where
    r: "r < n0" and d: "deref st r = Some (PopulationObject rs')" and b: "\<forall>x\<in>set rs'. x < n0"
    by blast
  from deref_append[OF d, of ext] a have "rs' = rs" by simp
  with r b show "r < n0 \<and> (\<forall>x\<in>set rs. x < n0)" by simp
qed

lemma fresh_attribute_append:
  "fresh_attribute n0 st a \<Longrightarrow> fresh_attribute n0 (st @ ext) a"
  by (cases a) (simp_all add: fresh_attribute_def fresh_population_append)

lemma read_attribute_append:
  "read_attribute st a = Some p \<Longrightarrow> read_attribute (st @ ext) a = Some p"
  by (cases a) (auto simp: read_attribute_def read_population_append)

lemma deepcopy_algorithm_detached:
  assumes d: "deref st self = Some (AlgorithmObject a)" and h: "o_history a = None"
      and p: "read_attribute st (o_pop a) = Some p"
      and q: "read_attribute st (o_opt a) = Some q"
  shows "\<exists>obj memo ext pop' opt'.
           deepcopy_algorithm (Suc depth) [] st self = Inr (obj, memo, st @ ext)
         \<and> length st \<le> obj \<and> obj < length (st @ ext)
         \<and> (st @ ext) ! obj = AlgorithmObject (a\<lparr>o_pop := pop', o_opt := opt'\<rparr>)
         \<and> fresh_attribute (length st) (st @ ext) pop'
         \<and> fresh_attribute (length st) (st @ ext) opt'
         \<and> read_attribute (st @ ext) pop' = Some p
         \<and> read_attribute (st @ ext) opt' = Some q"
proof -
  let ?n = "length st"
  have m0: "memo_ok ?n st []" by (simp add: memo_ok_def)
  have w1: "\<forall>r rs. o_pop a = Some r \<and> deref st r = Some (PopulationObject rs)
                \<longrightarrow> r < ?n \<and> (\<forall>x\<in>set rs. x < ?n)"
    using read_attribute_within[OF p refl, of "[]"] unfolding append_Nil2 .
  from copy_attribute_spec[OF m0 p w1] obtain pop' memo1 ext1 where
    c1: "copy_attribute [] st (o_pop a) = Inr (pop', memo1, st @ ext1)"
    and m1: "memo_ok ?n (st @ ext1) memo1" and f1: "fresh_attribute ?n (st @ ext1) pop'"
    and r1: "read_attribute (st @ ext1) pop' = Some p" by blast
  from read_attribute_append[OF q] have q1: "read_attribute (st @ ext1) (o_opt a) = Some q" .
  from read_attribute_within[OF q refl, of ext1]
  have w2: "\<forall>r rs. o_opt a = Some r \<and> deref (st @ ext1) r = Some (PopulationObject rs)
                \<longrightarrow> r < ?n \<and> (\<forall>x\<in>set rs. x < ?n)" .
  from copy_attribute_spec[OF m1 q1 w2] obtain opt' memo2 ext2 where
    c2: "copy_attribute memo1 (st @ ext1) (o_opt a) = Inr (opt', memo2, (st @ ext1) @ ext2)"
    and f2: "fresh_attribute ?n ((st @ ext1) @ ext2) opt'"
    and r2: "read_attribute ((st @ ext1) @ ext2) opt' = Some q" by blast
  let ?st2 = "(st @ ext1) @ ext2"
  let ?b = "a\<lparr>o_pop := pop', o_opt := opt'\<rparr>"
  let ?ext = "ext1 @ ext2 @ [AlgorithmObject ?b]"
  have e: "st @ ?ext = ?st2 @ [AlgorithmObject ?b]" by simp
  have "a\<lparr>o_pop := pop', o_opt := opt', o_history := None\<rparr> = ?b" using h by simp
  then have "deepcopy_algorithm (Suc depth) [] st self
               = Inr (length ?st2, (self, length ?st2) # memo2, st @ ?ext)"
    using d c1 c2 h by simp
  moreover have "length st \<le> length ?st2" "length ?st2 < length (st @ ?ext)" by simp_all
  moreover have "(st @ ?ext) ! length ?st2 = AlgorithmObject ?b"
    unfolding e by simp
  moreover have "fresh_attribute ?n (st @ ?ext) pop'"
    using fresh_attribute_append[OF f1, of "ext2 @ [AlgorithmObject ?b]"] by simp
  moreover have "fresh_attribute ?n (st @ ?ext) opt'"
    using fresh_attribute_append[OF f2, of "[AlgorithmObject ?b]"] by simp
  moreover have "read_attribute (st @ ?ext) pop' = Some p"
    using read_attribute_append[OF r1, of "ext2 @ [AlgorithmObject ?b]"] by simp
  moreover have "read_attribute (st @ ?ext) opt' = Some q"
    using read_attribute_append[OF r2, of "[AlgorithmObject ?b]"] by simp
  ultimately show ?thesis by blast
qed

lemma read_individuals_cong:
  "\<forall>x\<in>set rs. deref st' x = deref st x \<Longrightarrow> read_individuals st' rs = read_individuals st rs"
proof -
  assume "\<forall>x\<in>set rs. deref st' x = deref st x"
  then have "map (\<lambda>r. case deref st' r of Some (IndividualObject i) \<Rightarrow> Some i | _ \<Rightarrow> None) rs
           = map (\<lambda>r. case deref st r of Some (IndividualObject i) \<Rightarrow> Some i | _ \<Rightarrow> None) rs"
    by (intro map_cong) simp_all
  then show ?thesis unfolding read_individuals_def by (rule arg_cong)
qed

lemma fresh_population_agree:
  assumes f: "fresh_population n0 st r" and a: "agree n0 st st'"
  shows "read_population st' r = read_population st r"
proof -
  from a have d: "\<And>x. n0 \<le> x \<Longrightarrow> x < length st \<Longrightarrow> deref st' x = deref st x"
    by (auto simp: agree_def deref_def)
  from f obtain rs where r: "n0 \<le> r" "r < length st" and p: "st ! r = PopulationObject rs"
    and b: "\<forall>x\<in>set rs. n0 \<le> x \<and> x < length st"
    by (auto simp: fresh_population_def list_all_iff split: object.splits)
  from b d have "\<forall>x\<in>set rs. deref st' x = deref st x" by blast
  from read_individuals_cong[OF this] d[OF r] p r(2) show ?thesis
    by (simp add: read_population_def deref_def)
qed

lemma fresh_attribute_agree:
  "fresh_attribute n0 st a \<Longrightarrow> agree n0 st st' \<Longrightarrow> read_attribute st' a = read_attribute st a"
  by (cases a) (simp_all add: read_attribute_def fresh_attribute_def fresh_population_agree)

lemma snapshot_agree:
  assumes o: "n0 \<le> obj" "obj < length st" "st ! obj = AlgorithmObject b"
      and fp: "fresh_attribute n0 st (o_pop b)" and fo: "fresh_attribute n0 st (o_opt b)"
      and a: "agree n0 st st'"
  shows "read_attributes st' obj = read_attributes st obj \<and> history_ref st' obj = history_ref st obj"
proof -
  from a o have "deref st' obj = deref st obj" by (auto simp: agree_def deref_def)
  with fresh_attribute_agree[OF fp a] fresh_attribute_agree[OF fo a] o show ?thesis
    by (simp add: read_attributes_def history_ref_def deref_def)
qed

lemma read_individuals_update:
  assumes "k < length st" and "inert (st ! k)" and "inert ob"
  shows "read_individuals (st[k := ob]) rs = read_individuals st rs"
proof -
  have "\<And>r. (case deref (st[k := ob]) r of Some (IndividualObject i) \<Rightarrow> Some i | _ \<Rightarrow> None)
      = (case deref st r of Some (IndividualObject i) \<Rightarrow> Some i | _ \<Rightarrow> None)"
  proof -
    fix r
    show "(case deref (st[k := ob]) r of Some (IndividualObject i) \<Rightarrow> Some i | _ \<Rightarrow> None)
      = (case deref st r of Some (IndividualObject i) \<Rightarrow> Some i | _ \<Rightarrow> None)"
      using assms by (cases "r = k") (auto simp: deref_def inert_def split: object.splits)
  qed
  then have "(\<lambda>r. case deref (st[k := ob]) r of Some (IndividualObject i) \<Rightarrow> Some i | _ \<Rightarrow> None)
      = (\<lambda>r. case deref st r of Some (IndividualObject i) \<Rightarrow> Some i | _ \<Rightarrow> None)"
    by (rule ext)
  then show ?thesis unfolding read_individuals_def by (rule arg_cong)
qed

lemma read_population_update:
  assumes "k < length st" and "inert (st ! k)" and "inert ob"
  shows "read_population (st[k := ob]) r = read_population st r"
proof (cases "r = k")
  case True
  with assms show ?thesis
    by (auto simp: read_population_def deref_def inert_def split: object.splits)
next
  case False
  then have "deref (st[k := ob]) r = deref st r" by (simp add: deref_def)
  then show ?thesis
    by (simp add: read_population_def read_individuals_update[OF assms]
             split: option.splits object.splits)
qed

lemma read_attribute_update:
  assumes "k < length st" and "inert (st ! k)" and "inert ob"
  shows "read_attribute (st[k := ob]) a = read_attribute st a"
  by (cases a) (simp_all add: read_attribute_def read_population_update[OF assms])

lemma read_attributes_parts:
  assumes "read_attributes st r = Some s"
  shows "\<exists>a p q. deref st r = Some (AlgorithmObject a)
           \<and> read_attribute st (o_pop a) = Some p \<and> read_attribute st (o_opt a) = Some q
           \<and> s = \<lparr>callback = o_callback a,
                     display = o_display a,
                     return_least_infeasible = o_return_least_infeasible a,
                     problem = o_problem a,
                     termination_criterion = o_termination a,
                     default_termination = o_default_termination a,
                     seed = o_seed a,
                     pf = o_pf a,
                     evaluator = o_evaluator a,
                     n_gen = o_n_gen a,
                     save_history = o_save_history a,
                     pop = p,
                     opt = (case q of None \<Rightarrow> PNone | Some q' \<Rightarrow> Pop q'),
                     verbose = o_verbose a\<rparr>"
  using assms
  by (auto simp: read_attributes_def split: option.splits object.splits)

lemma save_snapshot_result:
  assumes live: "read_attributes st self = Some s"
      and sh: "save_history s = Some True"
      and hr: "history_ref st self = Some (Some h)"
      and hl: "deref st h = Some (ListObject snapshots)"
  shows "\<exists>st' obj.
        save_snapshot (Suc depth) st self = Inr st'
      \<and> length st \<le> obj \<and> obj < length st'
      \<and> deref st' h = Some (ListObject (snapshots @ [obj]))
      \<and> (\<forall>r<length st. r \<noteq> h \<longrightarrow> st' ! r = st ! r)
      \<and> read_attributes st' self = Some s \<and> history_ref st' self = Some (Some h)
      \<and> read_attributes st' obj = Some (s\<lparr>callback := None\<rparr>)
      \<and> history_ref st' obj = Some None
      \<and> (\<forall>st''. agree (length st) st' st'' \<longrightarrow>
            read_attributes st'' obj = Some (s\<lparr>callback := None\<rparr>)
          \<and> history_ref st'' obj = Some None)"
proof -
  let ?n = "length st"
  from read_attributes_parts[OF live] obtain a p q where
    d: "deref st self = Some (AlgorithmObject a)"
    and p: "read_attribute st (o_pop a) = Some p" and q: "read_attribute st (o_opt a) = Some q"
    and s: "s = \<lparr>callback = o_callback a,
                     display = o_display a,
                     return_least_infeasible = o_return_least_infeasible a,
                     problem = o_problem a,
                     termination_criterion = o_termination a,
                     default_termination = o_default_termination a,
                     seed = o_seed a,
                     pf = o_pf a,
                     evaluator = o_evaluator a,
                     n_gen = o_n_gen a,
                     save_history = o_save_history a,
                     pop = p,
                     opt = (case q of None \<Rightarrow> PNone | Some q' \<Rightarrow> Pop q'),
                     verbose = o_verbose a\<rparr>" by blast
  from d have sl: "self < ?n" and sa: "st ! self = AlgorithmObject a"
    by (auto simp: deref_def split: if_splits)
  from hl have hn: "h < ?n" and ha: "st ! h = ListObject snapshots"
    by (auto simp: deref_def split: if_splits)
  from sa ha have ne: "h \<noteq> self" by auto
  from hr d have oh: "o_history a = Some h" by (simp add: history_ref_def)
  from sh s have osh: "o_save_history a = Some True" by simp
  \<comment> \<open>detach\<close>
  let ?a1 = "a\<lparr>o_history := None, o_callback := None\<rparr>"
  let ?st1 = "st[self := AlgorithmObject ?a1]"
  have i0: "inert (st ! self)" using sa by (simp add: inert_def)
  have s1: "set_attributes st self (\<lambda>a. a\<lparr>o_history := None, o_callback := None\<rparr>) = Inr ?st1"
    using d by (simp add: set_attributes_def)
  have d1: "deref ?st1 self = Some (AlgorithmObject ?a1)" using sl by (simp add: deref_def)
  have p1: "read_attribute ?st1 (o_pop ?a1) = Some p"
    using read_attribute_update[OF sl i0, of "AlgorithmObject ?a1" "o_pop a"] p
    by (simp add: inert_def)
  have q1: "read_attribute ?st1 (o_opt ?a1) = Some q"
    using read_attribute_update[OF sl i0, of "AlgorithmObject ?a1" "o_opt a"] q
    by (simp add: inert_def)
  \<comment> \<open>copy\<close>
  from deepcopy_algorithm_detached[OF d1 _ p1 q1, of depth] obtain obj memo ext pop' opt' where
    c: "deepcopy_algorithm (Suc depth) [] ?st1 self = Inr (obj, memo, ?st1 @ ext)"
    and o: "?n \<le> obj" "obj < length (?st1 @ ext)"
    and ob: "(?st1 @ ext) ! obj = AlgorithmObject (?a1\<lparr>o_pop := pop', o_opt := opt'\<rparr>)"
    and fp: "fresh_attribute ?n (?st1 @ ext) pop'" and fo: "fresh_attribute ?n (?st1 @ ext) opt'"
    and rp: "read_attribute (?st1 @ ext) pop' = Some p"
    and rq: "read_attribute (?st1 @ ext) opt' = Some q" by auto
  let ?st2 = "?st1 @ ext"
  let ?b = "?a1\<lparr>o_pop := pop', o_opt := opt'\<rparr>"
  have snap2: "read_attributes ?st2 obj = Some (s\<lparr>callback := None\<rparr>)"
    using o ob rp rq s by (simp add: read_attributes_def deref_def)
  have hist2: "history_ref ?st2 obj = Some None"
    using o ob by (simp add: history_ref_def deref_def)
  \<comment> \<open>reattach and append\<close>
  let ?st3 = "?st2[self := AlgorithmObject a]"
  have d2: "deref ?st2 self = Some (AlgorithmObject ?a1)"
    using sl by (simp add: deref_def nth_append)
  have "?a1\<lparr>o_history := o_history a, o_callback := o_callback a\<rparr> = a" by simp
  then have s3: "set_attributes ?st2 self (\<lambda>x. x\<lparr>o_history := o_history a, o_callback := o_callback a\<rparr>)
                   = Inr ?st3"
    using d2 by (simp add: set_attributes_def)
  have d3: "deref ?st3 self = Some (AlgorithmObject a)" using sl by (simp add: deref_def)
  have h3: "deref ?st3 h = Some (ListObject snapshots)"
    using hn ha ne by (simp add: deref_def nth_append)
  let ?st4 = "?st3[h := ListObject (snapshots @ [obj])]"
  have ap: "append_object ?st3 (o_history a) obj = Inr ?st4"
    using oh h3 by (simp add: append_object_def)
  have run: "save_snapshot (Suc depth) st self = Inr ?st4"
    unfolding save_snapshot_def using d osh s1 c s3 d3 ap
    by (simp add: Let_def del: deepcopy_algorithm.simps)
  \<comment> \<open>the final store\<close>
  have len4: "length ?st4 = length ?st2" by simp
  have o4: "obj < length ?st4" using o by simp
  have h4: "deref ?st4 h = Some (ListObject (snapshots @ [obj]))"
    using hn by (simp add: deref_def)
  have frame: "\<forall>r<?n. r \<noteq> h \<longrightarrow> ?st4 ! r = st ! r"
  proof (intro allI impI)
    fix r assume r: "r < ?n" "r \<noteq> h"
    show "?st4 ! r = st ! r"
    proof (cases "r = self")
      case True
      with sl sa ne show ?thesis by simp
    next
      case False
      with r show ?thesis by (simp add: nth_append)
    qed
  qed
  have ag: "agree ?n ?st2 ?st4"
    using sl hn by (auto simp: agree_def)
  have fpb: "fresh_attribute ?n ?st2 (o_pop ?b)" using fp by simp
  have fob: "fresh_attribute ?n ?st2 (o_opt ?b)" using fo by simp
  have iso: "\<And>st''. agree ?n ?st2 st'' \<Longrightarrow>
       read_attributes st'' obj = Some (s\<lparr>callback := None\<rparr>) \<and> history_ref st'' obj = Some None"
    using snapshot_agree[OF o ob fpb fob] snap2 hist2 by simp
  have tr: "\<And>st''. agree ?n ?st4 st'' \<Longrightarrow> agree ?n ?st2 st''"
    using sl hn by (auto simp: agree_def)
  have live4: "read_attributes ?st4 self = Some s"
  proof -
    have e: "\<And>x. read_attribute ?st4 x = read_attribute ?st2 x"
    proof -
      fix x
      have i2: "inert (?st2 ! self)" using sl by (simp add: nth_append inert_def)
      have a3: "read_attribute ?st3 x = read_attribute ?st2 x"
        using read_attribute_update[of self ?st2 "AlgorithmObject a" x] i2 sl
        by (simp add: inert_def)
      have i3: "inert (?st3 ! h)" using hn ha ne by (simp add: nth_append inert_def)
      have "read_attribute ?st4 x = read_attribute ?st3 x"
        using read_attribute_update[of h ?st3 "ListObject (snapshots @ [obj])" x] i3 hn
        by (simp add: inert_def)
      with a3 show "read_attribute ?st4 x = read_attribute ?st2 x" by simp
    qed
    have "read_attribute ?st2 (o_pop a) = Some p" "read_attribute ?st2 (o_opt a) = Some q"
      using read_attribute_append[OF p1] read_attribute_append[OF q1] by simp_all
    moreover have "deref ?st4 self = Some (AlgorithmObject a)"
      using sl ne by (simp add: deref_def)
    ultimately show ?thesis using s by (simp add: read_attributes_def e)
  qed
  have hr4: "history_ref ?st4 self = Some (Some h)"
    using sl ne oh by (simp add: history_ref_def deref_def)
  from iso[OF ag] have snap4: "read_attributes ?st4 obj = Some (s\<lparr>callback := None\<rparr>)"
    and hist4: "history_ref ?st4 obj = Some None" by simp_all
  have iso4: "\<forall>st''. agree ?n ?st4 st'' \<longrightarrow>
            read_attributes st'' obj = Some (s\<lparr>callback := None\<rparr>)
          \<and> history_ref st'' obj = Some None"
    using iso tr by blast
  from run o(1) o4 h4 frame live4 hr4 snap4 hist4 iso4 show ?thesis by blast
qed

text \<open>
  The step on the store and the step on values agree: where the live object reads as
  the algorithm \<open>b\<close>, it reads after \<open>save_snapshot\<close> as \<open>b\<close> with one more
  entry in its history, \<open>b\<close> without callback and history.
\<close>

lemma those_snoc:
  "those (xs @ [x]) =
     (case those xs of None \<Rightarrow> None | Some v \<Rightarrow> (case x of None \<Rightarrow> None | Some y \<Rightarrow> Some (v @ [y])))"
  by (induction xs) (auto split: option.splits)

lemma those_map_cong:
  "those (map f xs) = Some v \<Longrightarrow> \<forall>x\<in>set xs. \<forall>y. f x = Some y \<longrightarrow> g x = Some y
     \<Longrightarrow> those (map g xs) = Some v"
proof (induction xs arbitrary: v)
  case Nil
  then show ?case by simp
next
  case (Cons x xs)
  from Cons.prems(1) obtain y w where y: "f x = Some y" and w: "those (map f xs) = Some w"
    and v: "v = y # w" by (auto split: option.splits)
  from Cons.prems(2) y have gy: "g x = Some y" by simp
  from Cons.prems(2) have "\<forall>x\<in>set xs. \<forall>y. f x = Some y \<longrightarrow> g x = Some y" by simp
  from Cons.IH[OF w this] gy v show ?case by simp
qed

text \<open>
  What an attribute and a snapshot read as stays when only the list object \<open>h\<close>
  changes and the store grows.
\<close>

lemma read_attribute_frame:
  assumes fr: "\<forall>r<length st. r \<noteq> h \<longrightarrow> st' ! r = st ! r" and len: "length st \<le> length st'"
      and hl: "deref st h = Some (ListObject xs)"
      and p: "read_attribute st a = Some p"
  shows "read_attribute st' a = Some p"
proof (cases a)
  case None
  with p show ?thesis by (simp add: read_attribute_def)
next
  case (Some r)
  with p obtain v where v: "read_population st r = Some v" and pv: "p = Some v"
    by (auto simp: read_attribute_def)
  from v obtain rs where rs: "deref st r = Some (PopulationObject rs)"
    and vi: "read_individuals st rs = Some v"
    by (auto simp: read_population_def split: option.splits object.splits)
  have same: "\<And>x ob. deref st x = Some ob \<Longrightarrow> (\<forall>ys. ob \<noteq> ListObject ys) \<Longrightarrow> deref st' x = Some ob"
  proof -
    fix x ob assume d: "deref st x = Some ob" and n: "\<forall>ys. ob \<noteq> ListObject ys"
    from d have x: "x < length st" "st ! x = ob" by (auto simp: deref_def split: if_splits)
    with hl n have "x \<noteq> h" by (auto simp: deref_def split: if_splits)
    with fr x len show "deref st' x = Some ob" by (simp add: deref_def)
  qed
  from same[OF rs] have rs': "deref st' r = Some (PopulationObject rs)" by simp
  have "\<forall>x\<in>set rs. deref st' x = deref st x"
  proof
    fix x assume "x \<in> set rs"
    with vi obtain i where "deref st x = Some (IndividualObject i)"
      by (induction rs arbitrary: v)
         (auto simp: read_individuals_Cons split: option.splits object.splits)
    from same[OF this] this show "deref st' x = deref st x" by simp
  qed
  from read_individuals_cong[OF this] vi rs' pv Some show ?thesis
    by (simp add: read_attribute_def read_population_def)
qed

lemma read_snapshot_frame:
  assumes fr: "\<forall>r<length st. r \<noteq> h \<longrightarrow> st' ! r = st ! r" and len: "length st \<le> length st'"
      and hl: "deref st h = Some (ListObject xs)"
      and s: "read_snapshot st r = Some v"
  shows "read_snapshot st' r = Some v"
proof -
  from s obtain a where ra: "read_attributes st r = Some a" and hr: "history_ref st r = Some None"
    and v: "v = Algorithm a None"
    by (auto simp: read_snapshot_def split: option.splits)
  from read_attributes_parts[OF ra] obtain ob p q where
    d: "deref st r = Some (AlgorithmObject ob)"
    and p: "read_attribute st (o_pop ob) = Some p" and q: "read_attribute st (o_opt ob) = Some q"
    by blast
  from d have x: "r < length st" "st ! r = AlgorithmObject ob"
    by (auto simp: deref_def split: if_splits)
  with hl have "r \<noteq> h" by (auto simp: deref_def split: if_splits)
  with fr x len have d': "deref st' r = deref st r" by (simp add: deref_def)
  from read_attribute_frame[OF fr len hl p] read_attribute_frame[OF fr len hl q] p q d d'
  have "read_attributes st' r = read_attributes st r" by (simp add: read_attributes_def)
  moreover from d' have "history_ref st' r = history_ref st r" by (simp add: history_ref_def)
  ultimately show ?thesis using s by (simp add: read_snapshot_def)
qed

lemma save_snapshot_refines:
  assumes live: "read_algorithm st self = Some b"
      and sh: "save_history (attrs b) = Some True"
      and hb: "history b = Some hs"
  shows "\<exists>st' obj h rs.
        save_snapshot (Suc depth) st self = Inr st'
      \<and> read_algorithm st' self
          = Some (Algorithm (attrs b) (Some (hs @ [Algorithm ((attrs b)\<lparr>callback := None\<rparr>) None])))
      \<and> history_ref st self = Some (Some h) \<and> deref st h = Some (ListObject rs)
      \<and> history_ref st' self = Some (Some h) \<and> deref st' h = Some (ListObject (rs @ [obj]))
      \<and> length st \<le> obj \<and> obj < length st'
      \<and> (\<forall>r<length st. r \<noteq> h \<longrightarrow> st' ! r = st ! r)
      \<and> read_snapshot st' obj = Some (Algorithm ((attrs b)\<lparr>callback := None\<rparr>) None)
      \<and> (\<forall>st''. agree (length st) st' st'' \<longrightarrow>
            read_snapshot st'' obj = Some (Algorithm ((attrs b)\<lparr>callback := None\<rparr>) None))"
proof -
  from live hb obtain s h rs where s: "read_attributes st self = Some s"
    and hr: "history_ref st self = Some (Some h)" and hl: "deref st h = Some (ListObject rs)"
    and th: "those (map (read_snapshot st) rs) = Some hs" and b: "b = Algorithm s (Some hs)"
    by (auto simp: read_algorithm_def split: option.splits object.splits)
  from b sh have sh': "save_history s = Some True" by simp
  from save_snapshot_result[OF s sh' hr hl, of depth] obtain st' obj where
    r: "save_snapshot (Suc depth) st self = Inr st'"
       "length st \<le> obj" "obj < length st'"
       "deref st' h = Some (ListObject (rs @ [obj]))"
       "\<forall>r<length st. r \<noteq> h \<longrightarrow> st' ! r = st ! r"
       "read_attributes st' self = Some s" "history_ref st' self = Some (Some h)"
       "read_attributes st' obj = Some (s\<lparr>callback := None\<rparr>)"
       "history_ref st' obj = Some None"
    and iso: "\<forall>st''. agree (length st) st' st'' \<longrightarrow>
                read_attributes st'' obj = Some (s\<lparr>callback := None\<rparr>)
              \<and> history_ref st'' obj = Some None" by blast
  from r(2,3) have len: "length st \<le> length st'" by simp
  have old: "those (map (read_snapshot st') rs) = Some hs"
  proof (rule those_map_cong[OF th], intro ballI allI impI)
    fix x y assume "x \<in> set rs" and "read_snapshot st x = Some y"
    from read_snapshot_frame[OF r(5) len hl this(2)] show "read_snapshot st' x = Some y" .
  qed
  have new: "read_snapshot st' obj = Some (Algorithm (s\<lparr>callback := None\<rparr>) None)"
    using r(8,9) by (simp add: read_snapshot_def)
  have "read_algorithm st' self
          = Some (Algorithm s (Some (hs @ [Algorithm (s\<lparr>callback := None\<rparr>) None])))"
    using r(4,6,7) old new by (simp add: read_algorithm_def those_snoc)
  moreover have "\<forall>st''. agree (length st) st' st'' \<longrightarrow>
            read_snapshot st'' obj = Some (Algorithm (s\<lparr>callback := None\<rparr>) None)"
    using iso by (simp add: read_snapshot_def)
  ultimately show ?thesis using r hr hl new b by simp
qed

lemmas store_defs = save_snapshot_def set_attributes_def append_object_def deref_def
  copy_attribute_def copy_population_def copy_individual_def read_attributes_def read_attribute_def
  read_population_def read_individuals_def history_ref_def example_store_def Let_def

lemma example_snapshot:
  "save_snapshot 10 example_store 5 =
   Inr [IndividualObject \<lparr>X = [3], F = [3], G = [], CV = 0, feasible = True\<rparr>,
      IndividualObject \<lparr>X = [5], F = [5], G = [], CV = 0, feasible = True\<rparr>,
      PopulationObject [0, 1], PopulationObject [0], ListObject [10],
      AlgorithmObject
       \<lparr>o_callback = Some (PlainFunction 1), o_display = None,
          o_return_least_infeasible = False, o_problem = Some \<lparr>n_obj = 1\<rparr>,
          o_termination = Some 3, o_default_termination = None,
          o_seed = Some 42, o_pf = None, o_evaluator = Some (),
          o_n_gen = Some 1, o_save_history = Some True, o_history = Some 4,
          o_pop = Some 2, o_opt = Some 3, o_verbose = Some False\<rparr>,
      IndividualObject \<lparr>X = [3], F = [3], G = [], CV = 0, feasible = True\<rparr>,
      IndividualObject \<lparr>X = [5], F = [5], G = [], CV = 0, feasible = True\<rparr>,
      PopulationObject [6, 7], PopulationObject [6],
      AlgorithmObject
       \<lparr>o_callback = None, o_display = None,
          o_return_least_infeasible = False, o_problem = Some \<lparr>n_obj = 1\<rparr>,
          o_termination = Some 3, o_default_termination = None,
          o_seed = Some 42, o_pf = None, o_evaluator = Some (),
          o_n_gen = Some 1, o_save_history = Some True, o_history = None,
          o_pop = Some 8, o_opt = Some 9, o_verbose = Some False\<rparr>]"
  by (simp add: store_defs numeral_eq_Suc)

lemma each_iteration_history:
  assumes e: "each_iteration H self = Inr self'"
  shows "(save_history (attrs self) = Some True \<longrightarrow>
            (\<exists>h. history self = Some h
               \<and> history self' = Some (h @ [Algorithm ((attrs self')\<lparr>callback := None\<rparr>) None])))
       \<and> (save_history (attrs self) \<noteq> Some True \<longrightarrow> history self' = history self)"
proof -
  from e obtain b where b: "call_callback H self = Inr b"
    by (cases "call_callback H self") (auto simp: each_iteration_def)
  from call_callback_frame[OF b] obtain cb where hb: "history b = history self"
    and ab: "attrs b = (attrs self)\<lparr>callback := cb\<rparr>" by blast
  from ab have sb: "save_history (attrs b) = save_history (attrs self)" by simp
  show ?thesis
  proof (cases "save_history (attrs self) = Some True")
    case False
    with e b sb hb show ?thesis by (simp add: each_iteration_def)
  next
    case True
    with e b sb have "\<exists>h. history b = Some h
        \<and> self' = Algorithm (attrs b) (Some (h @ [Algorithm ((attrs b)\<lparr>callback := None\<rparr>) None]))"
      by (cases b)
         (auto simp: each_iteration_def Let_def update_attrs_def set_history_def deepcopy_def
               split: option.splits)
    then obtain h where h: "history b = Some h"
      and s: "self' = Algorithm (attrs b) (Some (h @ [Algorithm ((attrs b)\<lparr>callback := None\<rparr>) None]))"
      by blast
    from s have "attrs self' = attrs b"
      "history self' = Some (h @ [Algorithm ((attrs b)\<lparr>callback := None\<rparr>) None])"
      by simp_all
    with h hb True show ?thesis by simp
  qed
qed

text \<open>
  \<open>each_iteration\<close> in one equation, once the callback has been called, and the
  history along a run.
\<close>

lemma each_iteration_total:
  assumes c: "call_callback H a = Inr b"
  shows "each_iteration H a =
           (if save_history (attrs b) = Some True then
              (case history b of
                 None \<Rightarrow> Inl AttributeError
               | Some hs \<Rightarrow>
                  Inr (Algorithm (attrs b)
                         (Some (hs @ [Algorithm ((attrs b)\<lparr>callback := None\<rparr>) None]))))
            else Inr b)"
  using c
  by (cases b)
     (auto simp: each_iteration_def Let_def update_attrs_def set_history_def deepcopy_def
           split: option.splits)

lemma generation_history:
  assumes s: "set_optimum H a = Inr b" and e: "each_iteration H b = Inr c"
      and sh: "save_history (attrs a) = Some True" and h: "history a = Some hs"
  shows "history c = Some (hs @ [Algorithm ((attrs c)\<lparr>callback := None\<rparr>) None])
       \<and> save_history (attrs c) = Some True"
proof -
  from set_optimum_result[OF s] obtain v where "b = update_attrs (\<lambda>s. s\<lparr>opt := v\<rparr>) a" by blast
  then have hb: "history b = Some hs" and sb: "save_history (attrs b) = Some True"
    using h sh by (simp_all add: algorithm_simps)
  from each_iteration_frame[OF e] sb have sc: "save_history (attrs c) = Some True" by auto
  from each_iteration_history[OF e] sb hb
  have "history c = Some (hs @ [Algorithm ((attrs c)\<lparr>callback := None\<rparr>) None])" by simp
  with sc show ?thesis by simp
qed

lemma next_generation_history:
  assumes g: "next_generation H a = Inr a'"
      and sh: "save_history (attrs a) = Some True" and h: "history a = Some hs"
  shows "history a' = Some (hs @ [Algorithm ((attrs a')\<lparr>callback := None\<rparr>) None])
       \<and> save_history (attrs a') = Some True"
proof -
  from g obtain n where n: "n_gen (attrs a) = Some n"
    by (cases "n_gen (attrs a)") (auto simp: next_generation_def)
  let ?a1 = "update_attrs (\<lambda>s. s\<lparr>n_gen := Some (n + 1)\<rparr>) a"
  from g n obtain p where p: "protected_next H ?a1 = Inr p"
    by (cases "protected_next H ?a1") (auto simp: next_generation_def Let_def)
  let ?a2 = "update_attrs (\<lambda>s. s\<lparr>pop := p\<rparr>) ?a1"
  from g n p obtain b where b: "set_optimum H ?a2 = Inr b"
    by (cases "set_optimum H ?a2") (auto simp: next_generation_def Let_def)
  from g n p b have e: "each_iteration H b = Inr a'"
    by (simp add: next_generation_def Let_def)
  have "save_history (attrs ?a2) = Some True" "history ?a2 = Some hs"
    using sh h by (simp_all add: algorithm_simps)
  from generation_history[OF b e this] show ?thesis .
qed

lemma next_calls_history:
  assumes "next_calls H k a = Inr a'" and "save_history (attrs a) = Some True"
      and "history a = Some hs" and "n_gen (attrs a) = Some n"
  shows "\<exists>new. history a' = Some (hs @ new) \<and> length new = k
           \<and> (\<forall>i<k. history (new ! i) = None \<and> callback (attrs (new ! i)) = None
                  \<and> n_gen (attrs (new ! i)) = Some (n + 1 + int i))
           \<and> save_history (attrs a') = Some True"
  using assms
proof (induction k arbitrary: a hs n)
  case 0
  then show ?case by simp
next
  case (Suc k)
  from Suc.prems(1) obtain b where b: "next_generation H a = Inr b" and r: "next_calls H k b = Inr a'"
    by (cases "next_generation H a") auto
  let ?s = "Algorithm ((attrs b)\<lparr>callback := None\<rparr>) None"
  from next_generation_history[OF b Suc.prems(2,3)]
  have hb: "history b = Some (hs @ [?s])" and sb: "save_history (attrs b) = Some True" by simp_all
  from next_generation_result[OF b] Suc.prems(4) have nb: "n_gen (attrs b) = Some (n + 1)" by auto
  from Suc.IH[OF r sb hb nb] obtain new where
    n1: "history a' = Some ((hs @ [?s]) @ new)" and n2: "length new = k"
    and n3: "\<forall>i<k. history (new ! i) = None \<and> callback (attrs (new ! i)) = None
                  \<and> n_gen (attrs (new ! i)) = Some (n + 1 + 1 + int i)"
    and n4: "save_history (attrs a') = Some True" by blast
  have "\<forall>i<Suc k. history ((?s # new) ! i) = None \<and> callback (attrs ((?s # new) ! i)) = None
                  \<and> n_gen (attrs ((?s # new) ! i)) = Some (n + 1 + int i)"
  proof (intro allI impI)
    fix i assume i: "i < Suc k"
    show "history ((?s # new) ! i) = None \<and> callback (attrs ((?s # new) ! i)) = None
                  \<and> n_gen (attrs ((?s # new) ! i)) = Some (n + 1 + int i)"
    proof (cases i)
      case 0
      with nb show ?thesis by simp
    next
      case (Suc j)
      with i n3 show ?thesis by simp
    qed
  qed
  moreover have "history a' = Some (hs @ (?s # new))" using n1 by simp
  moreover have "length (?s # new) = Suc k" using n2 by simp
  ultimately show ?case using n4 by blast
qed

lemma solve_history_parts:
  assumes "solve H t0 t1 a = Some (Inr (a', res))"
  shows "res_history res = history a'"
  using assms
  by (auto simp: solve_def split: option.splits sum.splits prod.splits)

lemma solve_history:
  assumes sv: "solve H t0 t1 a = Some (Inr (a', res))"
      and sh: "save_history (attrs a) = Some True" and h: "history a = Some hs"
  shows "\<exists>new. history a' = Some (hs @ new) \<and> res_history res = Some (hs @ new)
           \<and> n_gen (attrs a') = Some (int (length new))
           \<and> (\<forall>i<length new. history (new ! i) = None \<and> callback (attrs (new ! i)) = None
                  \<and> n_gen (attrs (new ! i)) = Some (1 + int i))"
proof -
  from solve_parts[OF sv] have ps: "protected_solve H a = Some (Inr a')" by simp
  from protected_solve_run[OF ps] obtain p s0 s1 k where
    s0: "set_optimum H (update_attrs (\<lambda>s. s\<lparr>pop := p\<rparr>)
                             (update_attrs (\<lambda>s. s\<lparr>n_gen := Some 1\<rparr>) a)) = Inr s0"
    and s1: "each_iteration H s0 = Inr s1"
    and k: "next_calls H k s1 = Inr a'" by blast
  let ?a2 = "update_attrs (\<lambda>s. s\<lparr>pop := p\<rparr>) (update_attrs (\<lambda>s. s\<lparr>n_gen := Some 1\<rparr>) a)"
  let ?s = "Algorithm ((attrs s1)\<lparr>callback := None\<rparr>) None"
  have "save_history (attrs ?a2) = Some True" "history ?a2 = Some hs"
    using sh h by (simp_all add: algorithm_simps)
  from generation_history[OF s0 s1 this]
  have h1: "history s1 = Some (hs @ [?s])" and sh1: "save_history (attrs s1) = Some True"
    by simp_all
  from generation_result[OF s0 s1] have n1: "n_gen (attrs s1) = Some 1"
    and oc: "optimum_current H s1" by (simp_all add: algorithm_simps)
  from next_calls_history[OF k sh1 h1 n1] obtain new where
    n: "history a' = Some ((hs @ [?s]) @ new)" "length new = k"
       "\<forall>i<k. history (new ! i) = None \<and> callback (attrs (new ! i)) = None
                  \<and> n_gen (attrs (new ! i)) = Some (1 + 1 + int i)" by blast
  from next_calls_result[OF k n1 oc] have ng: "n_gen (attrs a') = Some (1 + int k)" by simp
  have a: "\<forall>i<length (?s # new). history ((?s # new) ! i) = None
                  \<and> callback (attrs ((?s # new) ! i)) = None
                  \<and> n_gen (attrs ((?s # new) ! i)) = Some (1 + int i)"
  proof (intro allI impI)
    fix i assume i: "i < length (?s # new)"
    show "history ((?s # new) ! i) = None \<and> callback (attrs ((?s # new) ! i)) = None
                  \<and> n_gen (attrs ((?s # new) ! i)) = Some (1 + int i)"
    proof (cases i)
      case 0
      with n1 show ?thesis by simp
    next
      case (Suc j)
      with i n(2,3) show ?thesis by simp
    qed
  qed
  have "history a' = Some (hs @ (?s # new))" using n(1) by simp
  moreover from this solve_history_parts[OF sv] have "res_history res = Some (hs @ (?s # new))"
    by simp
  moreover have "n_gen (attrs a') = Some (int (length (?s # new)))" using ng n(2) by simp
  ultimately show ?thesis using a by blast
qed

lemma example_run_history:
  "\<exists>a' res. solve (example_hooks [sample [3] 0 True, sample [5] 0 True]) 0 1
                (example_algorithm 1 False True) = Some (Inr (a', res))
      \<and> save_history (attrs (example_algorithm 1 False True)) = Some True
      \<and> history (example_algorithm 1 False True) = Some []
      \<and> n_gen (attrs a') = Some 3
      \<and> map_option (map (\<lambda>s. pop (attrs s))) (res_history res)
          = Some [Some [\<lparr>X = [3], F = [3], G = [0], CV = 0, feasible = True\<rparr>,
                        \<lparr>X = [5], F = [5], G = [0], CV = 0, feasible = True\<rparr>],
                  Some [\<lparr>X = [3], F = [2], G = [0], CV = 0, feasible = True\<rparr>,
                        \<lparr>X = [5], F = [4], G = [0], CV = 0, feasible = True\<rparr>],
                  Some [\<lparr>X = [3], F = [1], G = [0], CV = 0, feasible = True\<rparr>,
                        \<lparr>X = [5], F = [3], G = [0], CV = 0, feasible = True\<rparr>]]"
  by (simp add: run_defs)

text \<open>
  Claim C9. On a store where the live algorithm object \<open>self\<close> reads as the
  attributes \<open>s\<close>, with history capture enabled and the history list \<open>h\<close>, the
  bookkeeping of lines 278 to 286 returns and appends to \<open>h\<close> one new object
  \<open>obj\<close>; it reads as \<open>s\<close> without the callback, and its \<^verbatim>\<open>history\<close> is
  \<^verbatim>\<open>None\<close>, so it contains no earlier snapshot; the live object reads as \<open>s\<close>
  again, callback and history list attached as before, and no other object that
  existed has changed. Overwriting any object that existed before the snapshot (the
  live population, one of its individuals, the live algorithm) leaves what the
  snapshot reads as unchanged, and so does any change of the store that keeps the
  objects made by the copy; this part rests on the copy of a population being deep,
  as the spec has it. The step on the store is the step of \<^verbatim>\<open>_each_iteration\<close>: if
  the entries of the history list read as the snapshots \<open>hs\<close>, the live object
  reads after the step as the algorithm that \<open>each_iteration\<close> returns once the
  callback has been called, with the history \<open>hs\<close> and the new snapshot at its end.
  On values, \<open>each_iteration\<close> with history capture enabled, after the call of the
  callback, returns exactly the algorithm with the callback still attached and the
  history longer by the algorithm without callback and history (or raises, when
  \<^verbatim>\<open>history\<close> is \<^verbatim>\<open>None\<close>). And when \<^verbatim>\<open>solve\<close> returns with history capture
  enabled, the history has grown by one snapshot for each generation: as many as
  \<^verbatim>\<open>n_gen\<close> says at the end, the \<open>i\<close>-th taken at generation \<open>i + 1\<close>, each
  without callback and without history.
\<close>

theorem history_snapshot:
  assumes "read_attributes st self = Some s"
      and "save_history s = Some True"
      and "history_ref st self = Some (Some h)"
      and "deref st h = Some (ListObject snapshots)"
  shows "(\<exists>st' obj.
            save_snapshot (Suc depth) st self = Inr st'
          \<and> length st \<le> obj \<and> obj < length st'
          \<and> deref st' h = Some (ListObject (snapshots @ [obj]))
          \<and> (\<forall>r<length st. r \<noteq> h \<longrightarrow> st' ! r = st ! r)
          \<and> read_attributes st' self = Some s \<and> history_ref st' self = Some (Some h)
          \<and> read_attributes st' obj = Some (s\<lparr>callback := None\<rparr>)
          \<and> history_ref st' obj = Some None
          \<and> (\<forall>r ob. r < length st \<longrightarrow>
                read_attributes (st'[r := ob]) obj = Some (s\<lparr>callback := None\<rparr>)
              \<and> history_ref (st'[r := ob]) obj = Some None)
          \<and> (\<forall>st''. agree (length st) st' st'' \<longrightarrow>
                read_attributes st'' obj = Some (s\<lparr>callback := None\<rparr>)
              \<and> history_ref st'' obj = Some None)
          \<and> (\<forall>hs. those (map (read_snapshot st) snapshots) = Some hs \<longrightarrow>
                read_algorithm st self = Some (Algorithm s (Some hs))
              \<and> read_algorithm st' self
                  = Some (Algorithm s (Some (hs @ [Algorithm (s\<lparr>callback := None\<rparr>) None])))
              \<and> (\<forall>H a. call_callback H a = Inr (Algorithm s (Some hs)) \<longrightarrow>
                    each_iteration H a
                      = Inr (Algorithm s (Some (hs @ [Algorithm (s\<lparr>callback := None\<rparr>) None]))))))
       \<and> (\<forall>H a b. call_callback H a = Inr b \<and> save_history (attrs b) = Some True \<longrightarrow>
             each_iteration H a =
               (case history b of
                  None \<Rightarrow> Inl AttributeError
                | Some hs \<Rightarrow>
                    Inr (Algorithm (attrs b)
                           (Some (hs @ [Algorithm ((attrs b)\<lparr>callback := None\<rparr>) None])))))
       \<and> (\<forall>H t0 t1 a a' res hs.
             solve H t0 t1 a = Some (Inr (a', res)) \<and> save_history (attrs a) = Some True
               \<and> history a = Some hs \<longrightarrow>
             (\<exists>new. history a' = Some (hs @ new) \<and> res_history res = Some (hs @ new)
                \<and> n_gen (attrs a') = Some (int (length new))
                \<and> (\<forall>i<length new. history (new ! i) = None
                       \<and> callback (attrs (new ! i)) = None
                       \<and> n_gen (attrs (new ! i)) = Some (1 + int i))))"
proof -
  let ?snap = "Algorithm (s\<lparr>callback := None\<rparr>) None"
  from save_snapshot_result[OF assms, of depth] obtain st' obj where
    r: "save_snapshot (Suc depth) st self = Inr st'"
       "length st \<le> obj" "obj < length st'"
       "deref st' h = Some (ListObject (snapshots @ [obj]))"
       "\<forall>r<length st. r \<noteq> h \<longrightarrow> st' ! r = st ! r"
       "read_attributes st' self = Some s" "history_ref st' self = Some (Some h)"
       "read_attributes st' obj = Some (s\<lparr>callback := None\<rparr>)"
       "history_ref st' obj = Some None"
    and iso: "\<forall>st''. agree (length st) st' st'' \<longrightarrow>
                read_attributes st'' obj = Some (s\<lparr>callback := None\<rparr>)
              \<and> history_ref st'' obj = Some None" by blast
  have one: "\<forall>r ob. r < length st \<longrightarrow>
                read_attributes (st'[r := ob]) obj = Some (s\<lparr>callback := None\<rparr>)
              \<and> history_ref (st'[r := ob]) obj = Some None"
  proof (intro allI impI)
    fix r ob assume "r < length st"
    then have "agree (length st) st' (st'[r := ob])" by (simp add: agree_def)
    with iso show "read_attributes (st'[r := ob]) obj = Some (s\<lparr>callback := None\<rparr>)
              \<and> history_ref (st'[r := ob]) obj = Some None" by blast
  qed
  have link: "\<forall>hs. those (map (read_snapshot st) snapshots) = Some hs \<longrightarrow>
                read_algorithm st self = Some (Algorithm s (Some hs))
              \<and> read_algorithm st' self = Some (Algorithm s (Some (hs @ [?snap])))
              \<and> (\<forall>H a. call_callback H a = Inr (Algorithm s (Some hs)) \<longrightarrow>
                    each_iteration H a = Inr (Algorithm s (Some (hs @ [?snap]))))"
  proof (intro allI impI)
    fix hs assume hs: "those (map (read_snapshot st) snapshots) = Some hs"
    from assms hs have live: "read_algorithm st self = Some (Algorithm s (Some hs))"
      by (simp add: read_algorithm_def)
    have sh: "save_history (attrs (Algorithm s (Some hs))) = Some True"
      and hb: "history (Algorithm s (Some hs)) = Some hs" using assms(2) by simp_all
    from save_snapshot_refines[OF live sh hb, of depth] r(1)
    have after: "read_algorithm st' self = Some (Algorithm s (Some (hs @ [?snap])))" by auto
    have "\<forall>H a. call_callback H a = Inr (Algorithm s (Some hs)) \<longrightarrow>
                    each_iteration H a = Inr (Algorithm s (Some (hs @ [?snap])))"
    proof (intro allI impI)
      fix H :: "('a, 'b, 'c) hooks" and a
      assume c: "call_callback H a = Inr (Algorithm s (Some hs))"
      from each_iteration_total[OF c] assms(2)
      show "each_iteration H a = Inr (Algorithm s (Some (hs @ [?snap])))" by simp
    qed
    with live after
    show "read_algorithm st self = Some (Algorithm s (Some hs))
        \<and> read_algorithm st' self = Some (Algorithm s (Some (hs @ [?snap])))
        \<and> (\<forall>H a. call_callback H a = Inr (Algorithm s (Some hs)) \<longrightarrow>
              each_iteration H a = Inr (Algorithm s (Some (hs @ [?snap]))))" by blast
  qed
  from r iso one link have store: "\<exists>st' obj.
            save_snapshot (Suc depth) st self = Inr st'
          \<and> length st \<le> obj \<and> obj < length st'
          \<and> deref st' h = Some (ListObject (snapshots @ [obj]))
          \<and> (\<forall>r<length st. r \<noteq> h \<longrightarrow> st' ! r = st ! r)
          \<and> read_attributes st' self = Some s \<and> history_ref st' self = Some (Some h)
          \<and> read_attributes st' obj = Some (s\<lparr>callback := None\<rparr>)
          \<and> history_ref st' obj = Some None
          \<and> (\<forall>r ob. r < length st \<longrightarrow>
                read_attributes (st'[r := ob]) obj = Some (s\<lparr>callback := None\<rparr>)
              \<and> history_ref (st'[r := ob]) obj = Some None)
          \<and> (\<forall>st''. agree (length st) st' st'' \<longrightarrow>
                read_attributes st'' obj = Some (s\<lparr>callback := None\<rparr>)
              \<and> history_ref st'' obj = Some None)
          \<and> (\<forall>hs. those (map (read_snapshot st) snapshots) = Some hs \<longrightarrow>
                read_algorithm st self = Some (Algorithm s (Some hs))
              \<and> read_algorithm st' self = Some (Algorithm s (Some (hs @ [?snap])))
              \<and> (\<forall>H a. call_callback H a = Inr (Algorithm s (Some hs)) \<longrightarrow>
                    each_iteration H a = Inr (Algorithm s (Some (hs @ [?snap])))))"
    by (intro exI[of _ st'] exI[of _ obj] conjI)
  have val: "\<forall>H a b. call_callback H a = Inr b \<and> save_history (attrs b) = Some True \<longrightarrow>
             each_iteration H a =
               (case history b of
                  None \<Rightarrow> Inl AttributeError
                | Some hs \<Rightarrow>
                    Inr (Algorithm (attrs b)
                           (Some (hs @ [Algorithm ((attrs b)\<lparr>callback := None\<rparr>) None]))))"
    by (simp add: each_iteration_total)
  have run: "\<forall>H t0 t1 a a' res hs.
             solve H t0 t1 a = Some (Inr (a', res)) \<and> save_history (attrs a) = Some True
               \<and> history a = Some hs \<longrightarrow>
             (\<exists>new. history a' = Some (hs @ new) \<and> res_history res = Some (hs @ new)
                \<and> n_gen (attrs a') = Some (int (length new))
                \<and> (\<forall>i<length new. history (new ! i) = None
                       \<and> callback (attrs (new ! i)) = None
                       \<and> n_gen (attrs (new ! i)) = Some (1 + int i)))"
    using solve_history by blast
  from store val run show ?thesis by (intro conjI)
qed

text \<open>
  Claim C9 at the example store: the snapshot is a new object at the end of the
  history list; after the objective value of the first live individual is overwritten
  with 99, the live algorithm reads the new value and the snapshot the old one. The
  live object reads after the step as what \<open>each_iteration\<close> returns on the
  algorithm whose callback has counted no call yet. A run of the example algorithm
  with history capture enabled leaves three snapshots, of the generations 1, 2
  and 3.
\<close>

theorem history_snapshot_witness:
  "\<exists>st' obj a' b res new.
      save_snapshot 10 example_store 5 = Inr st'
    \<and> deref st' 4 = Some (ListObject [obj])
    \<and> history_ref st' obj = Some None
    \<and> map_option callback (read_attributes st' obj) = Some None
    \<and> map_option callback (read_attributes st' 5) = Some (Some (PlainFunction 1))
    \<and> map_option pop (read_attributes st' obj)
        = Some (Some [\<lparr>X = [3], F = [3], G = [], CV = 0, feasible = True\<rparr>,
                      \<lparr>X = [5], F = [5], G = [], CV = 0, feasible = True\<rparr>])
    \<and> map_option pop
          (read_attributes
             (st'[0 := IndividualObject \<lparr>X = [3], F = [99], G = [], CV = 0, feasible = True\<rparr>]) obj)
        = Some (Some [\<lparr>X = [3], F = [3], G = [], CV = 0, feasible = True\<rparr>,
                      \<lparr>X = [5], F = [5], G = [], CV = 0, feasible = True\<rparr>])
    \<and> map_option pop
          (read_attributes
             (st'[0 := IndividualObject \<lparr>X = [3], F = [99], G = [], CV = 0, feasible = True\<rparr>]) 5)
        = Some (Some [\<lparr>X = [3], F = [99], G = [], CV = 0, feasible = True\<rparr>,
                      \<lparr>X = [5], F = [5], G = [], CV = 0, feasible = True\<rparr>])
    \<and> read_algorithm st' 5 = Some a'
    \<and> each_iteration (example_hooks [])
         (Algorithm
            \<lparr>callback = Some (PlainFunction 0), display = None,
               return_least_infeasible = False, problem = Some \<lparr>n_obj = 1\<rparr>,
               termination_criterion = Some 3, default_termination = None,
               seed = Some 42, pf = None, evaluator = Some (), n_gen = Some 1,
               save_history = Some True,
               pop = Some [\<lparr>X = [3], F = [3], G = [], CV = 0, feasible = True\<rparr>,
                           \<lparr>X = [5], F = [5], G = [], CV = 0, feasible = True\<rparr>],
               opt = Pop [\<lparr>X = [3], F = [3], G = [], CV = 0, feasible = True\<rparr>],
               verbose = Some False\<rparr>
            (Some [])) = Inr a'
    \<and> map_option (map (\<lambda>x. (callback (attrs x), history x))) (history a') = Some [(None, None)]
    \<and> callback (attrs a') = Some (PlainFunction 1)
    \<and> solve (example_hooks [sample [3] 0 True, sample [5] 0 True]) 0 1
        (example_algorithm 1 False True) = Some (Inr (b, res))
    \<and> res_history res = Some new
    \<and> map (\<lambda>x. (n_gen (attrs x), callback (attrs x), history x)) new
        = [(Some 1, None, None), (Some 2, None, None), (Some 3, None, None)]"
proof -
  let ?s = "\<lparr>callback = Some (PlainFunction (1 :: nat)), display = None :: unit option,
      return_least_infeasible = False, problem = Some \<lparr>n_obj = 1\<rparr>,
      termination_criterion = Some (3 :: int), default_termination = None,
      seed = Some 42, pf = None, evaluator = Some (), n_gen = Some 1,
      save_history = Some True,
      pop = Some [\<lparr>X = [3], F = [3], G = [], CV = 0, feasible = True\<rparr>,
                  \<lparr>X = [5], F = [5], G = [], CV = 0, feasible = True\<rparr>],
      opt = Pop [\<lparr>X = [3], F = [3], G = [], CV = 0, feasible = True\<rparr>],
      verbose = Some False\<rparr>"
  let ?m = "IndividualObject \<lparr>X = [3], F = [99], G = [], CV = 0, feasible = True\<rparr>
              :: (int, nat, unit) object"
  let ?a = "Algorithm (?s\<lparr>callback := Some (PlainFunction 0)\<rparr>) (Some [])"
  let ?a' = "Algorithm ?s (Some ([] @ [Algorithm (?s\<lparr>callback := None\<rparr>) None]))"
  let ?H = "example_hooks [sample [3] 0 True, sample [5] 0 True]"
  have a: "read_attributes example_store 5 = Some ?s" by (simp add: store_defs)
  have b: "save_history ?s = Some True" by simp
  have c: "history_ref example_store 5 = Some (Some 4)" by (simp add: store_defs)
  have d: "deref example_store 4 = Some (ListObject [])" by (simp add: store_defs)
  have len: "length example_store = 6" by (simp add: example_store_def)
  have e: "those (map (read_snapshot example_store) []) = Some []" by simp
  have f: "call_callback (example_hooks []) ?a = Inr (Algorithm ?s (Some []))"
    by (simp add: call_callback_def example_hooks_def update_attrs_def)
  from example_run_history obtain b' res where
    run: "solve ?H 0 1 (example_algorithm 1 False True) = Some (Inr (b', res))"
    and sh: "save_history (attrs (example_algorithm 1 False True)) = Some True"
    and h0: "history (example_algorithm 1 False True) = Some []"
    and n3: "n_gen (attrs b') = Some 3" by blast
  note t = history_snapshot[OF a b c d, of 9]
  from t obtain st' obj where
    r: "save_snapshot (Suc 9) example_store 5 = Inr st'"
       "deref st' 4 = Some (ListObject ([] @ [obj]))"
       "read_attributes st' 5 = Some ?s"
       "read_attributes st' obj = Some (?s\<lparr>callback := None\<rparr>)"
       "history_ref st' obj = Some None"
    and iso: "\<forall>r ob. r < length example_store \<longrightarrow>
                read_attributes (st'[r := ob]) obj = Some (?s\<lparr>callback := None\<rparr>)
              \<and> history_ref (st'[r := ob]) obj = Some None"
    and link: "\<forall>hs. those (map (read_snapshot example_store) []) = Some hs \<longrightarrow>
                read_algorithm example_store 5 = Some (Algorithm ?s (Some hs))
              \<and> read_algorithm st' 5
                  = Some (Algorithm ?s (Some (hs @ [Algorithm (?s\<lparr>callback := None\<rparr>) None])))
              \<and> (\<forall>H a. call_callback H a = Inr (Algorithm ?s (Some hs)) \<longrightarrow>
                    each_iteration H a
                      = Inr (Algorithm ?s (Some (hs @ [Algorithm (?s\<lparr>callback := None\<rparr>) None]))))"
    by blast
  from link e f have l1: "read_algorithm st' 5 = Some ?a'"
    and l2: "each_iteration (example_hooks []) ?a = Inr ?a'" by blast+
  from t run sh h0 obtain new where
    n: "res_history res = Some ([] @ new)" "n_gen (attrs b') = Some (int (length new))"
       "\<forall>i<length new. history (new ! i) = None \<and> callback (attrs (new ! i)) = None
                       \<and> n_gen (attrs (new ! i)) = Some (1 + int i)" by blast
  from n(2) n3 have ln: "length new = 3" by simp
  then obtain x0 x1 x2 where new: "new = [x0, x1, x2]"
    by (cases new; cases "tl new"; cases "tl (tl new)") auto
  from n(3) ln have "\<forall>i\<in>{0, 1, 2}. history (new ! i) = None \<and> callback (attrs (new ! i)) = None
                       \<and> n_gen (attrs (new ! i)) = Some (1 + int i)" by simp
  with new have snaps: "map (\<lambda>x. (n_gen (attrs x), callback (attrs x), history x)) new
        = [(Some 1, None, None), (Some 2, None, None), (Some 3, None, None)]" by simp
  from iso len have m: "read_attributes (st'[0 := ?m]) obj = Some (?s\<lparr>callback := None\<rparr>)"
    by simp
  from r(1) have sv: "save_snapshot 10 example_store 5 = Inr st'" by simp
  with example_snapshot have live: "map_option pop (read_attributes (st'[0 := ?m]) 5)
        = Some (Some [\<lparr>X = [3], F = [99], G = [], CV = 0, feasible = True\<rparr>,
                      \<lparr>X = [5], F = [5], G = [], CV = 0, feasible = True\<rparr>])"
    by (auto simp: store_defs)
  from n(1) have rh: "res_history res = Some new" by simp
  from sv r m live l1 l2 run rh snaps show ?thesis
    by (intro exI[of _ st'] exI[of _ obj] exI[of _ ?a'] exI[of _ b'] exI[of _ res] exI[of _ new])
       simp
qed

end
